theory Spec2Isabelle
  imports Main "HOL-Library.Sublist"
begin

section \<open>picoevents: the data model\<close>

text \<open>
  \<^verbatim>\<open>Event<T...>\<close> keeps its callbacks in a \<^verbatim>\<open>std::list<Callback>\<close> and hands out list
  iterators as handles (\<^verbatim>\<open>CallbackID\<close>). A list node keeps its identity while other nodes
  are inserted or erased, so the list is modelled as a sequence of (node, callback) pairs and
  an iterator as either the past-the-end position of one particular list or a node of one
  particular list: \<open>Node b n\<close> is the iterator at the node \<open>n\<close> of the list of the Event at
  \<open>b\<close>. Every iterator a program holds was made by a list and points into that list as long
  as it is valid.
  Event objects are identified by their address; every address holds an Event (the lifetime
  of Event objects is not modelled, a reference \<^verbatim>\<open>Event&\<close> is an address).
  A member function \<^verbatim>\<open>C::f\<close> is the constant \<open>C_f\<close>, taking the object (or its address)
  and the state and returning what it changes; a data member \<^verbatim>\<open>_x\<close> is a record field
  named after it.
\<close>

type_synonym addr = nat
type_synonym node = nat

datatype CallbackID = End addr | Node addr node

text \<open>
  What C++ leaves undefined is a value of the model: dereferencing, incrementing or erasing
  \<^verbatim>\<open>end()\<close>, and any use of an iterator whose node is not (or no longer) in the list.
\<close>

datatype fault = PastTheEnd | InvalidIterator

text \<open>
  A call that does not return normally either has undefined behaviour or is left by an
  exception. Nothing in the library catches an exception, so it reaches the caller with the
  state as it is at that moment: \<open>Thrown x\<close> carries that state.
\<close>

datatype 'x abrupt = Undefined fault | Thrown 'x

record 'c Event =
  callbacks :: "(node \<times> 'c) list"
  enabled :: bool
  nextCallback :: CallbackID

text \<open>
  The program state: the Event objects, the allocators of list nodes and of heap objects
  (\<^verbatim>\<open>new ScopedCallbackID\<close>), and the state of the subscribers' own code, which the
  library never looks at.
\<close>

record ('c, 'u) world =
  events :: "addr \<Rightarrow> 'c Event"
  next_node :: node
  next_obj :: nat
  user :: 'u

text \<open>
  A callback is a \<^verbatim>\<open>std::function<void(T...)>\<close>: arbitrary code of the subscriber that may
  call back into any Event, and may throw. Its meaning is a parameter of the model,
  \<open>call c t w\<close>: run on the argument \<open>t\<close> in the state \<open>w\<close>, it yields the new state and
  the argument as it is afterwards (for a parameter type that is a non-const reference every
  callback works on the caller's object; for a value or const parameter the argument comes
  back unchanged), whether it returns (\<open>Inr\<close>) or throws (\<open>Inl (Thrown _)\<close>).
\<close>

type_synonym ('c, 'a, 'u) call =
  "'c \<Rightarrow> 'a \<Rightarrow> ('c, 'u) world \<Rightarrow>
   ('a \<times> ('c, 'u) world) abrupt + ('a \<times> ('c, 'u) world)"

text \<open>
  The dispatch log is a ghost value: one entry for each callback that \<^verbatim>\<open>notify\<close> invoked,
  with its node, the callback, the argument passed and the nodes that were in the list at
  that moment.
\<close>

record ('c, 'a) invocation =
  inv_node :: node
  inv_callback :: 'c
  inv_arg :: 'a
  inv_live :: "node list"

subsection \<open>std::list with node identity\<close>

definition list_begin :: "addr \<Rightarrow> (node \<times> 'c) list \<Rightarrow> CallbackID" where
  "list_begin a xs = (case xs of [] \<Rightarrow> End a | (n, _) # _ \<Rightarrow> Node a n)"

fun list_next :: "addr \<Rightarrow> (node \<times> 'c) list \<Rightarrow> node \<Rightarrow> CallbackID option" where
  "list_next a [] n = None"
| "list_next a ((m, c) # xs) n = (if m = n then Some (list_begin a xs) else list_next a xs n)"

definition list_erase :: "node \<Rightarrow> (node \<times> 'c) list \<Rightarrow> (node \<times> 'c) list" where
  "list_erase n xs = filter (\<lambda>(m, _). m \<noteq> n) xs"


definition nodes :: "addr \<Rightarrow> ('c, 'u) world \<Rightarrow> node list" where
  "nodes a w = map fst (callbacks (events w a))"

definition upd_event ::
  "addr \<Rightarrow> ('c Event \<Rightarrow> 'c Event) \<Rightarrow> ('c, 'u) world \<Rightarrow> ('c, 'u) world" where
  "upd_event a f w = w\<lparr>events := (events w)(a := f (events w a))\<rparr>"

subsection \<open>Event\<close>

definition Event_init :: "addr \<Rightarrow> 'c Event" where
  "Event_init a = \<lparr>callbacks = [], enabled = True, nextCallback = End a\<rparr>"

definition init_world :: "'u \<Rightarrow> ('c, 'u) world" where
  "init_world u = \<lparr>events = Event_init, next_node = 0, next_obj = 0, user = u\<rparr>"

definition Event_setEnabled :: "addr \<Rightarrow> bool \<Rightarrow> ('c, 'u) world \<Rightarrow> ('c, 'u) world" where
  "Event_setEnabled a b w = upd_event a (\<lambda>e. e\<lparr>enabled := b\<rparr>) w"

definition Event_isEnabled :: "addr \<Rightarrow> ('c, 'u) world \<Rightarrow> bool" where
  "Event_isEnabled a w = enabled (events w a)"

definition Event_empty_callback :: "addr \<Rightarrow> ('c, 'u) world \<Rightarrow> CallbackID" where
  "Event_empty_callback a w = End a"

definition Event_add ::
  "addr \<Rightarrow> 'c \<Rightarrow> bool \<Rightarrow> ('c, 'u) world \<Rightarrow> ('c, 'u) world \<times> CallbackID" where
  "Event_add a c first w =
     (let n = next_node w;
          w' = w\<lparr>next_node := Suc n\<rparr>
      in if first
         then (upd_event a (\<lambda>e. e\<lparr>callbacks := (n, c) # callbacks e\<rparr>) w', Node a n)
         else (upd_event a (\<lambda>e. e\<lparr>callbacks := callbacks e @ [(n, c)]\<rparr>) w', Node a n))"

text \<open>
  \<^verbatim>\<open>remove(CallbackID &c)\<close>: the handle is passed by reference, so the model returns it
  too. The cursor is advanced before the node is erased. \<^verbatim>\<open>_callbacks.erase(c)\<close> is
  defined only for an iterator at a node of \<^verbatim>\<open>_callbacks\<close>.
\<close>

definition Event_remove ::
  "addr \<Rightarrow> CallbackID \<Rightarrow> ('c, 'u) world \<Rightarrow> fault + (('c, 'u) world \<times> CallbackID)" where
  "Event_remove a c w =
     (if c \<noteq> End a
      then (case c of
              End b \<Rightarrow> Inl PastTheEnd
            | Node b n \<Rightarrow>
                (let e = events w a in
                 if b = a \<and> n \<in> set (map fst (callbacks e))
                 then (case (if c = nextCallback e then list_next a (callbacks e) n
                             else Some (nextCallback e)) of
                         None \<Rightarrow> Inl InvalidIterator
                       | Some nx \<Rightarrow>
                           Inr (upd_event a (\<lambda>e. e\<lparr>callbacks := list_erase n (callbacks e),
                                                   nextCallback := nx\<rparr>) w, End a))
                 else Inl InvalidIterator))
      else Inr (w, c))"


text \<open>
  The loop of \<^verbatim>\<open>notify\<close>. The cursor \<open>c\<close> is the local iterator; \<^verbatim>\<open>_nextCallback\<close> is
  stored before the callback runs and read back after it. \<^verbatim>\<open>std::next(c)\<close> and \<^verbatim>\<open>*c\<close>
  follow the node of \<open>c\<close> in the list it is in. A callback may add callbacks without
  bound, so the loop need not end: not returning is the value \<open>None\<close>. A callback that
  throws ends the loop there and then: the exception leaves \<^verbatim>\<open>notify\<close> with the state as
  the callback left it.
\<close>

partial_function (option) notify_loop ::
  "('c, 'a, 'u) call \<Rightarrow> addr \<Rightarrow> CallbackID \<Rightarrow> 'a \<Rightarrow> ('c, 'u) world \<Rightarrow>
   ('c, 'a) invocation list \<Rightarrow>
   (('a \<times> ('c, 'u) world \<times> ('c, 'a) invocation list) abrupt +
    ('a \<times> ('c, 'u) world \<times> ('c, 'a) invocation list)) option" where
  "notify_loop call a c t w tr =
     (if c = End a then Some (Inr (t, w, tr))
      else (case c of
              End b \<Rightarrow> Some (Inl (Undefined PastTheEnd))
            | Node b n \<Rightarrow>
                (case list_next b (callbacks (events w b)) n of
                   None \<Rightarrow> Some (Inl (Undefined InvalidIterator))
                 | Some nx \<Rightarrow>
                     (case map_of (callbacks (events w b)) n of
                        None \<Rightarrow> Some (Inl (Undefined InvalidIterator))
                      | Some f \<Rightarrow>
                          (case call f t (upd_event a (\<lambda>e. e\<lparr>nextCallback := nx\<rparr>) w) of
                             Inl (Undefined err) \<Rightarrow> Some (Inl (Undefined err))
                           | Inl (Thrown (t', w')) \<Rightarrow>
                               Some (Inl (Thrown (t', w',
                                 tr @ [\<lparr>inv_node = n, inv_callback = f, inv_arg = t,
                                         inv_live = nodes a w\<rparr>])))
                           | Inr (t', w') \<Rightarrow>
                               notify_loop call a (nextCallback (events w' a)) t' w'
                                 (tr @ [\<lparr>inv_node = n, inv_callback = f, inv_arg = t,
                                         inv_live = nodes a w\<rparr>]))))))"

declare notify_loop.simps [code]

text \<open>
  \<^verbatim>\<open>notify\<close>: the cursor is set back to \<^verbatim>\<open>end()\<close> after the loop, so only when the loop
  is left normally.
\<close>

definition Event_notify ::
  "('c, 'a, 'u) call \<Rightarrow> addr \<Rightarrow> 'a \<Rightarrow> ('c, 'u) world \<Rightarrow>
   (('a \<times> ('c, 'u) world \<times> ('c, 'a) invocation list) abrupt +
    ('a \<times> ('c, 'u) world \<times> ('c, 'a) invocation list)) option" where
  "Event_notify call a t w =
     (if enabled (events w a)
      then (case notify_loop call a (list_begin a (callbacks (events w a))) t w [] of
              None \<Rightarrow> None
            | Some (Inl err) \<Rightarrow> Some (Inl err)
            | Some (Inr (t', w', tr)) \<Rightarrow>
                Some (Inr (t', upd_event a (\<lambda>e. e\<lparr>nextCallback := End a\<rparr>) w', tr)))
      else Some (Inr (t, w, [])))"

text \<open>\<^verbatim>\<open>operator()\<close> is \<^verbatim>\<open>notify\<close>.\<close>

definition Event_operator_call ::
  "('c, 'a, 'u) call \<Rightarrow> addr \<Rightarrow> 'a \<Rightarrow> ('c, 'u) world \<Rightarrow>
   (('a \<times> ('c, 'u) world \<times> ('c, 'a) invocation list) abrupt +
    ('a \<times> ('c, 'u) world \<times> ('c, 'a) invocation list)) option" where
  "Event_operator_call call a t w = Event_notify call a t w"

subsection \<open>ScopedDisable\<close>




subsection \<open>Notifier and ScopedNotifier\<close>

text \<open>
  \<^verbatim>\<open>_t\<close> is a \<^verbatim>\<open>tuple_with_removed_refs<T...>\<close>: the Notifier holds the argument values
  themselves. \<^verbatim>\<open>trigger\<close> applies \<^verbatim>\<open>notify\<close> to the elements of \<^verbatim>\<open>_t\<close>, so for a
  reference parameter type the callbacks work on the stored tuple, and what they leave there
  is what the Notifier holds afterwards, also when a callback throws.
\<close>

record 'a Notifier =
  n_t :: 'a
  n_e :: addr


definition Notifier_trigger ::
  "('c, 'a, 'u) call \<Rightarrow> 'a Notifier \<Rightarrow> ('c, 'u) world \<Rightarrow>
   (('a Notifier \<times> ('c, 'u) world \<times> ('c, 'a) invocation list) abrupt +
    ('a Notifier \<times> ('c, 'u) world \<times> ('c, 'a) invocation list)) option" where
  "Notifier_trigger call n w =
     (case Event_notify call (n_e n) (n_t n) w of
        None \<Rightarrow> None
      | Some (Inl (Undefined err)) \<Rightarrow> Some (Inl (Undefined err))
      | Some (Inl (Thrown (t', w', tr))) \<Rightarrow> Some (Inl (Thrown (n\<lparr>n_t := t'\<rparr>, w', tr)))
      | Some (Inr (t', w', tr)) \<Rightarrow> Some (Inr (n\<lparr>n_t := t'\<rparr>, w', tr)))"

definition ScopedNotifier_ctor :: "'a Notifier \<Rightarrow> 'a Notifier" where
  "ScopedNotifier_ctor n = n"

definition ScopedNotifier_dtor ::
  "('c, 'a, 'u) call \<Rightarrow> 'a Notifier \<Rightarrow> ('c, 'u) world \<Rightarrow>
   ((('c, 'u) world \<times> ('c, 'a) invocation list) abrupt +
    (('c, 'u) world \<times> ('c, 'a) invocation list)) option" where
  "ScopedNotifier_dtor call n w =
     (case Notifier_trigger call n w of
        None \<Rightarrow> None
      | Some (Inl (Undefined err)) \<Rightarrow> Some (Inl (Undefined err))
      | Some (Inl (Thrown (n', w', tr))) \<Rightarrow> Some (Inl (Thrown (w', tr)))
      | Some (Inr (n', w', tr)) \<Rightarrow> Some (Inr (w', tr)))"

subsection \<open>ScopedCallbackID\<close>

record ScopedCallbackID =
  sc_event :: addr
  sc_cb :: CallbackID

definition ScopedCallbackID_ctor ::
  "addr \<Rightarrow> 'c \<Rightarrow> bool \<Rightarrow> ('c, 'u) world \<Rightarrow> ScopedCallbackID \<times> ('c, 'u) world" where
  "ScopedCallbackID_ctor event c first w =
     (case Event_add event c first w of
        (w', cid) \<Rightarrow> (\<lparr>sc_event = event, sc_cb = cid\<rparr>, w'))"

text \<open>The move constructor returns the new owner and the moved-from one.\<close>

definition ScopedCallbackID_move ::
  "ScopedCallbackID \<Rightarrow> ('c, 'u) world \<Rightarrow> ScopedCallbackID \<times> ScopedCallbackID" where
  "ScopedCallbackID_move other w =
     (\<lparr>sc_event = sc_event other, sc_cb = sc_cb other\<rparr>,
      other\<lparr>sc_cb := Event_empty_callback (sc_event other) w\<rparr>)"

definition ScopedCallbackID_dtor ::
  "ScopedCallbackID \<Rightarrow> ('c, 'u) world \<Rightarrow> fault + ('c, 'u) world" where
  "ScopedCallbackID_dtor s w =
     (case Event_remove (sc_event s) (sc_cb s) w of
        Inl err \<Rightarrow> Inl err
      | Inr (w', cid) \<Rightarrow> Inr w')"

text \<open>
  \<^verbatim>\<open>Event\<close> declares no assignment operator, so \<^verbatim>\<open>a = b\<close> on two Events is the implicit
  member-wise copy assignment: the list, the flag and the cursor of \<open>src\<close> are copied into
  the object at \<open>dst\<close>. The copied elements of the list live in nodes of \<open>dst\<close>; the model
  gives each of them a new node. Assigning an Event to itself changes nothing.
\<close>

definition Event_assign :: "addr \<Rightarrow> addr \<Rightarrow> ('c, 'u) world \<Rightarrow> ('c, 'u) world" where
  "Event_assign dst src w =
     (if dst = src then w
      else (let e = events w src;
                k = next_node w;
                cs = map snd (callbacks e)
            in w\<lparr>events := (events w)
                    (dst := \<lparr>callbacks = zip [k ..< k + length cs] cs,
                             enabled = enabled e,
                             nextCallback = nextCallback e\<rparr>),
                  next_node := k + length cs\<rparr>))"

text \<open>
  \<^verbatim>\<open>replace(event, c, first)\<close> is
  \<^verbatim>\<open>_event.remove(_cb); _event = event; _cb = _event.add(c, first);\<close>
  where \<^verbatim>\<open>_event\<close> is a member of type \<^verbatim>\<open>Event&\<close>. A reference cannot be made to refer to
  another object: the second statement assigns the Event \<^verbatim>\<open>event\<close> to the Event that
  \<^verbatim>\<open>_event\<close> refers to.
\<close>

definition ScopedCallbackID_replace ::
  "ScopedCallbackID \<Rightarrow> addr \<Rightarrow> 'c \<Rightarrow> bool \<Rightarrow> ('c, 'u) world \<Rightarrow>
   fault + (ScopedCallbackID \<times> ('c, 'u) world)" where
  "ScopedCallbackID_replace s event c first w =
     (case Event_remove (sc_event s) (sc_cb s) w of
        Inl err \<Rightarrow> Inl err
      | Inr (w1, cid1) \<Rightarrow>
          (case Event_add (sc_event s) c first (Event_assign (sc_event s) event w1) of
             (w3, cid3) \<Rightarrow> Inr (s\<lparr>sc_cb := cid3\<rparr>, w3)))"

text \<open>\<^verbatim>\<open>invoke\<close> calls the callback at the handle, without any check of the handle.\<close>

definition ScopedCallbackID_invoke ::
  "('c, 'a, 'u) call \<Rightarrow> ScopedCallbackID \<Rightarrow> 'a \<Rightarrow> ('c, 'u) world \<Rightarrow>
   ('a \<times> ('c, 'u) world) abrupt + ('a \<times> ('c, 'u) world)" where
  "ScopedCallbackID_invoke call s t w =
     (case sc_cb s of
        End b \<Rightarrow> Inl (Undefined PastTheEnd)
      | Node b n \<Rightarrow>
          (case map_of (callbacks (events w b)) n of
             None \<Rightarrow> Inl (Undefined InvalidIterator)
           | Some f \<Rightarrow> call f t w))"

definition ScopedCallbackID_getEvent :: "ScopedCallbackID \<Rightarrow> addr" where
  "ScopedCallbackID_getEvent s = sc_event s"

subsection \<open>ScopedCallbacksHolder\<close>

text \<open>
  The vector of \<^verbatim>\<open>unique_ptr<ScopedCallbackIDBase>\<close>: each entry is the address of the
  owned object together with the object.
\<close>

record ScopedCallbacksHolder =
  h_callbacks :: "(nat \<times> ScopedCallbackID) list"

definition ScopedCallbacksHolder_init :: ScopedCallbacksHolder where
  "ScopedCallbacksHolder_init = \<lparr>h_callbacks = []\<rparr>"

definition addCallback ::
  "addr \<Rightarrow> 'c \<Rightarrow> bool \<Rightarrow> 'z ScopedCallbacksHolder_scheme \<Rightarrow> ('c, 'u) world \<Rightarrow>
   nat \<times> 'z ScopedCallbacksHolder_scheme \<times> ('c, 'u) world" where
  "addCallback e c first h w =
     (let res = next_obj w in
      case ScopedCallbackID_ctor e c first (w\<lparr>next_obj := Suc res\<rparr>) of
        (s, w') \<Rightarrow> (res, h\<lparr>h_callbacks := h_callbacks h @ [(res, s)]\<rparr>, w'))"

text \<open>
  Destroying the elements of the vector runs the destructor of every owned object, here in
  the order of their positions.
\<close>

fun destroy_all ::
  "(nat \<times> ScopedCallbackID) list \<Rightarrow> ('c, 'u) world \<Rightarrow> fault + ('c, 'u) world" where
  "destroy_all [] w = Inr w"
| "destroy_all ((p, s) # rest) w =
     (case ScopedCallbackID_dtor s w of
        Inl err \<Rightarrow> Inl err
      | Inr w' \<Rightarrow> destroy_all rest w')"

definition removeAllCallbacks ::
  "'z ScopedCallbacksHolder_scheme \<Rightarrow> ('c, 'u) world \<Rightarrow>
   fault + ('z ScopedCallbacksHolder_scheme \<times> ('c, 'u) world)" where
  "removeAllCallbacks h w =
     (case destroy_all (h_callbacks h) w of
        Inl err \<Rightarrow> Inl err
      | Inr w' \<Rightarrow> Inr (h\<lparr>h_callbacks := []\<rparr>, w'))"

definition removeCallback ::
  "nat \<Rightarrow> 'z ScopedCallbacksHolder_scheme \<Rightarrow> ('c, 'u) world \<Rightarrow>
   fault + ('z ScopedCallbacksHolder_scheme \<times> ('c, 'u) world)" where
  "removeCallback r h w =
     (case filter (\<lambda>(p, s). p = r) (h_callbacks h) of
        [] \<Rightarrow> Inr (h, w)
      | (p, s) # _ \<Rightarrow>
          (case ScopedCallbackID_dtor s w of
             Inl err \<Rightarrow> Inl err
           | Inr w' \<Rightarrow>
               Inr (h\<lparr>h_callbacks :=
                        takeWhile (\<lambda>(p, s). p \<noteq> r) (h_callbacks h) @
                        tl (dropWhile (\<lambda>(p, s). p \<noteq> r) (h_callbacks h))\<rparr>, w')))"

text \<open>The destructor of the holder destroys the vector.\<close>

definition ScopedCallbacksHolder_dtor ::
  "'z ScopedCallbacksHolder_scheme \<Rightarrow> ('c, 'u) world \<Rightarrow> fault + ('c, 'u) world" where
  "ScopedCallbacksHolder_dtor h w = destroy_all (h_callbacks h) w"

text \<open>A sequence of \<^verbatim>\<open>addCallback\<close> calls, each with its channel, callback and flag.\<close>

fun addCallbacks ::
  "(addr \<times> 'c \<times> bool) list \<Rightarrow> 'z ScopedCallbacksHolder_scheme \<Rightarrow> ('c, 'u) world \<Rightarrow>
   'z ScopedCallbacksHolder_scheme \<times> ('c, 'u) world" where
  "addCallbacks [] h w = (h, w)"
| "addCallbacks ((e, c, first) # rest) h w =
     (case addCallback e c first h w of (res, h', w') \<Rightarrow> addCallbacks rest h' w')"

subsection \<open>Value\<close>

text \<open>
  \<^verbatim>\<open>Value<T, ET>\<close> derives from \<^verbatim>\<open>ScopedCallbacksHolder\<close> and has the members \<^verbatim>\<open>_t\<close> and
  \<^verbatim>\<open>_e\<close>; the Event member is the Event at the address \<open>v_e\<close>. \<^verbatim>\<open>notify()\<close> passes the
  member \<^verbatim>\<open>_t\<close> itself to \<^verbatim>\<open>_e.notify\<close>.
\<close>

record 'v Value = ScopedCallbacksHolder +
  v_t :: 'v
  v_e :: addr





definition Value_getEvent :: "'v Value \<Rightarrow> addr" where
  "Value_getEvent v = v_e v"


definition Value_dtor :: "'v Value \<Rightarrow> ('c, 'u) world \<Rightarrow> fault + ('c, 'u) world" where
  "Value_dtor v w =
     (case removeAllCallbacks v w of
        Inl err \<Rightarrow> Inl err
      | Inr (v', w') \<Rightarrow> Inr w')"

section \<open>Assumptions on the program around the library\<close>

text \<open>
  Node identities are allocated, never invented: the nodes of a list are pairwise different
  and were handed out by the allocator.
\<close>

definition wf_event :: "addr \<Rightarrow> ('c, 'u) world \<Rightarrow> bool" where
  "wf_event a w \<longleftrightarrow> distinct (nodes a w) \<and> (\<forall>n \<in> set (nodes a w). n < next_node w)"

definition wf_world :: "('c, 'u) world \<Rightarrow> bool" where
  "wf_world w \<longleftrightarrow> (\<forall>a. wf_event a w)"

text \<open>\<^verbatim>\<open>e.remove(h)\<close> for each of a sequence of handles, one after the other.\<close>

fun removes :: "addr \<Rightarrow> node list \<Rightarrow> ('c, 'u) world \<Rightarrow> fault + ('c, 'u) world" where
  "removes a [] w = Inr w"
| "removes a (n # ns) w =
     (case Event_remove a (Node a n) w of
        Inl err \<Rightarrow> Inl err
      | Inr (w', cid) \<Rightarrow> removes a ns w')"

text \<open>
  Two properties of subscriber code.
  \<^item> \<open>removing call a\<close>: a callback returns, and all it does to the Events is to call
    \<^verbatim>\<open>remove\<close> on the channel \<open>a\<close> with handles of subscriptions that are live at that
    moment, any number of them and whichever it likes (its own, visited ones, ones still to
    come); besides, it may change its own state and its argument.
  \<^item> \<open>by_value call\<close>: a callback leaves its argument as it was (always the case when the
    parameter types of the channel are values or const references).
\<close>

definition removing :: "('c, 'a, 'u) call \<Rightarrow> addr \<Rightarrow> bool" where
  "removing call a \<longleftrightarrow>
     (\<forall>c t w. \<exists>ns t' u.
        distinct ns \<and> set ns \<subseteq> set (nodes a w) \<and>
        call c t w =
          (case removes a ns w of
             Inl err \<Rightarrow> Inl (Undefined err)
           | Inr w' \<Rightarrow> Inr (t', w'\<lparr>user := u\<rparr>)))"


text \<open>
  Subscriber code given by what it does. A \<open>behaviour\<close> says, for a callback, its argument
  and the subscribers' state, which handles of the channel the callback passes to
  \<^verbatim>\<open>remove\<close>, what it leaves in its argument and what the subscribers' state is afterwards.
  \<open>subscriber a beh\<close> is the callback code that does so on the channel \<open>a\<close>. A handle
  variable is set to \<^verbatim>\<open>end()\<close> by \<^verbatim>\<open>remove\<close>, and \<^verbatim>\<open>remove\<close> does nothing for it the
  next time: of the handles named by \<open>beh\<close>, those whose subscription is still in the list
  are removed, each once. \<open>observer step\<close> is a callback that leaves the channels and
  its argument alone and only changes the subscribers' state.
\<close>

type_synonym ('c, 'a, 'u) behaviour = "'c \<Rightarrow> 'a \<Rightarrow> 'u \<Rightarrow> node list \<times> 'a \<times> 'u"

definition subscriber :: "addr \<Rightarrow> ('c, 'a, 'u) behaviour \<Rightarrow> ('c, 'a, 'u) call" where
  "subscriber a beh c t w =
     (case beh c t (user w) of
        (hs, t', u') \<Rightarrow>
          (case removes a (remdups (filter (\<lambda>n. n \<in> set (nodes a w)) hs)) w of
             Inl err \<Rightarrow> Inl (Undefined err)
           | Inr w' \<Rightarrow> Inr (t', w'\<lparr>user := u'\<rparr>)))"

definition observer :: "('c \<Rightarrow> 'a \<Rightarrow> 'u \<Rightarrow> 'u) \<Rightarrow> ('c, 'a, 'u) call" where
  "observer step c t w = Inr (t, w\<lparr>user := step c t (user w)\<rparr>)"

text \<open>
  What a dispatch is to be, in the words of the specification, for callbacks that behave as
  \<open>beh\<close> says: the callbacks of the list are invoked in the order of the list, each with the
  argument as the callbacks before it left it; a callback whose removal one of the callbacks
  invoked before it asked for is skipped. The result is the list of the invocations made
  (node, callback, argument passed, handles whose removal the callback asks for), the
  argument and the subscribers' state at the end. \<open>asked steps\<close> are the handles whose
  removal was asked for in the course of \<open>steps\<close>.
\<close>

function dispatch_spec ::
  "('c, 'a, 'u) behaviour \<Rightarrow> (node \<times> 'c) list \<Rightarrow> 'a \<Rightarrow> 'u \<Rightarrow>
   (node \<times> 'c \<times> 'a \<times> node list) list \<times> 'a \<times> 'u" where
  "dispatch_spec beh [] t u = ([], t, u)"
| "dispatch_spec beh ((n, f) # rest) t u =
     (case beh f t u of
        (hs, t1, u1) \<Rightarrow>
          (case dispatch_spec beh (filter (\<lambda>x. fst x \<notin> set hs) rest) t1 u1 of
             (steps, t', u') \<Rightarrow> ((n, f, t, hs) # steps, t', u')))"
  by pat_completeness auto

termination
  by (relation "measure (\<lambda>(beh, cs, t, u). length cs)") (auto simp: less_Suc_eq_le)

definition asked :: "(node \<times> 'c \<times> 'a \<times> node list) list \<Rightarrow> node set" where
  "asked steps = (\<Union>(n, f, x, hs) \<in> set steps. set hs)"

text \<open>
  A dispatch log honours removals when, at the moment of each invocation, the callback
  invoked and every callback invoked later in the log were in the list: a callback that
  had been removed by then is not invoked, then or later.
\<close>

fun honoured :: "('c, 'a) invocation list \<Rightarrow> bool" where
  "honoured [] = True"
| "honoured (i # tr) =
     ((\<forall>j \<in> set (i # tr). inv_node j \<in> set (inv_live i)) \<and> honoured tr)"

text \<open>
  What the loop of \<^verbatim>\<open>notify\<close> achieves when it starts with the cursor at the first
  element of \<open>rest\<close> in the list \<open>pre @ rest\<close>.
\<close>

definition loop_post ::
  "addr \<Rightarrow> (node \<times> 'c) list \<Rightarrow> (node \<times> 'c) list \<Rightarrow> ('c, 'u) world \<Rightarrow> ('c, 'u) world \<Rightarrow>
   ('c, 'a) invocation list \<Rightarrow> bool" where
  "loop_post a pre rest w w' tr \<longleftrightarrow>
     subseq (map inv_node tr) (map fst rest) \<and>
     honoured tr \<and>
     (\<forall>i \<in> set tr. (inv_node i, inv_callback i) \<in> set rest) \<and>
     (\<exists>S. callbacks (events w' a) = filter (\<lambda>x. fst x \<notin> S) (pre @ rest)) \<and>
     set (nodes a w') \<inter> fst ` set rest \<subseteq> set (map inv_node tr) \<and>
     enabled (events w' a) = enabled (events w a) \<and>
     (\<forall>b. b \<noteq> a \<longrightarrow> events w' b = events w b) \<and>
     next_node w' = next_node w \<and> next_obj w' = next_obj w"

text \<open>
  \<open>owns ents a n\<close>: one of the owners in \<open>ents\<close> holds the subscription at node \<open>n\<close> of
  channel \<open>a\<close>. \<open>reg_inv k w0 ents w\<close> is what holds of a registry with the owners
  \<open>ents\<close> that was empty in the state \<open>w0\<close>, where the allocator of nodes stood at \<open>k\<close>:
  every owner holds a live subscription made since, no two hold the same, and the lists
  are those of \<open>w0\<close> together with the subscriptions of the owners.
\<close>

definition owns :: "(nat \<times> ScopedCallbackID) list \<Rightarrow> addr \<Rightarrow> node \<Rightarrow> bool" where
  "owns ents a n \<longleftrightarrow> (\<exists>(p, s) \<in> set ents. sc_event s = a \<and> sc_cb s = Node a n)"

definition reg_inv ::
  "node \<Rightarrow> ('c, 'u) world \<Rightarrow> (nat \<times> ScopedCallbackID) list \<Rightarrow> ('c, 'u) world \<Rightarrow> bool" where
  "reg_inv k w0 ents w \<longleftrightarrow>
     wf_world w \<and> k \<le> next_node w \<and>
     (\<forall>(p, s) \<in> set ents.
        \<exists>n. sc_cb s = Node (sc_event s) n \<and> k \<le> n \<and> n \<in> set (nodes (sc_event s) w)) \<and>
     distinct (map (\<lambda>(p, s). sc_cb s) ents) \<and>
     (\<forall>a. filter (\<lambda>x. fst x < k) (callbacks (events w a)) = callbacks (events w0 a)) \<and>
     (\<forall>a. \<forall>x \<in> set (callbacks (events w a)). k \<le> fst x \<longrightarrow> owns ents a (fst x))"

text \<open>The cursor of a channel on which no \<^verbatim>\<open>notify\<close> is in progress.\<close>

definition cursor_idle :: "addr \<Rightarrow> ('c, 'u) world \<Rightarrow> bool" where
  "cursor_idle a w \<longleftrightarrow> nextCallback (events w a) = End a"

text \<open>A sequence of \<^verbatim>\<open>add\<close> calls on one channel, each with its callback and flag.\<close>

fun Event_adds :: "addr \<Rightarrow> ('c \<times> bool) list \<Rightarrow> ('c, 'u) world \<Rightarrow> ('c, 'u) world" where
  "Event_adds a [] w = w"
| "Event_adds a ((c, first) # rest) w = Event_adds a rest (fst (Event_add a c first w))"

section \<open>Example subscribers\<close>

text \<open>
  Subscriber programs, after the example code of the header: a callback that reports its
  argument (\<^verbatim>\<open>printf\<close> there, a log in the subscribers' state here; \<open>log_step\<close> is what it
  does to the log), a callback that removes subscriptions of channel 0 if they are still
  live, the same with a report of each invocation in the log, the callback \<^verbatim>\<open>k++\<close> on a
  channel with parameter type \<^verbatim>\<open>int&\<close>, and a callback that throws if it is the callback
  0 and reports its argument otherwise.
\<close>

definition log_call :: "(nat, int, (nat \<times> int) list) call" where
  "log_call k t w = Inr (t, w\<lparr>user := user w @ [(k, t)]\<rparr>)"

definition log_step :: "nat \<Rightarrow> int \<Rightarrow> (nat \<times> int) list \<Rightarrow> (nat \<times> int) list" where
  "log_step k t u = u @ [(k, t)]"

definition rm_call :: "(node list, int, unit) call" where
  "rm_call ns t w =
     (case removes 0 (remdups (filter (\<lambda>n. n \<in> set (nodes 0 w)) ns)) w of
        Inl err \<Rightarrow> Inl (Undefined err)
      | Inr w' \<Rightarrow> Inr (t, w'))"

definition rm_beh :: "(node list, int, (node list \<times> int) list) behaviour" where
  "rm_beh hs t u = (hs, t, u @ [(hs, t)])"



text \<open>Example states: channel 0 with one subscriber.\<close>

definition w_one :: "(nat, (nat \<times> int) list) world" where
  "w_one = fst (Event_add 0 1 False (init_world []))"

definition w_empty :: "(nat, (nat \<times> int) list) world" where
  "w_empty = init_world []"





text \<open>
  Channel 0 with five subscribers that behave as \<open>rm_beh\<close> says: the first asks for the
  removal of the second (on which the cursor stands while the first runs), of the fifth and
  of itself, the third for the removal of the first and of itself, the others for none.
\<close>

definition w_skip :: "(node list, (node list \<times> int) list) world" where
  "w_skip = Event_adds 0
              [([1, 4, 0], False), ([], False), ([0, 2], False), ([], False), ([], False)]
              (init_world [])"



text \<open>
  Channel 0 with four subscribers of the removing kind: the first removes itself and the
  third, the second removes the first and itself, the last two remove nothing.
\<close>

definition w_rm :: "(node list, unit) world" where
  "w_rm = Event_adds 0 [([0, 2], False), ([0, 1], False), ([], False), ([], False)]
            (init_world ())"

text \<open>A registry with three subscriptions, two on channel 0 and one on channel 1.\<close>

definition reg_ex :: "ScopedCallbacksHolder \<times> (node list, unit) world" where
  "reg_ex = addCallbacks [(0, [], False), (1, [], True), (0, [], False)]
              ScopedCallbacksHolder_init w_rm"

text \<open>
  Channel 0 with a plain subscriber and one held by a ScopedCallbackID, channel 1 with one
  subscriber; the state and the owner after \<^verbatim>\<open>replace\<close> of the owner to channel 1; and
  the state after the destructor of the owner.
\<close>

definition w_two :: "(nat, unit) world" where
  "w_two = fst (Event_add 1 20 False
             (snd (ScopedCallbackID_ctor 0 11 False
                (fst (Event_add 0 10 False (init_world ()))))))"

definition owner_ex :: ScopedCallbackID where
  "owner_ex = fst (ScopedCallbackID_ctor 0 (11 :: nat) False
                (fst (Event_add 0 10 False (init_world ()))))"

definition w_replaced :: "(nat, unit) world" where
  "w_replaced =
     (case ScopedCallbackID_replace owner_ex 1 12 False w_two of
        Inl err \<Rightarrow> w_two | Inr (s, w) \<Rightarrow> w)"

definition owner_replaced :: ScopedCallbackID where
  "owner_replaced =
     (case ScopedCallbackID_replace owner_ex 1 (12 :: nat) False w_two of
        Inl err \<Rightarrow> owner_ex | Inr (s, w) \<Rightarrow> s)"

definition w_destroyed :: "(nat, unit) world" where
  "w_destroyed =
     (case ScopedCallbackID_dtor owner_replaced w_replaced of
        Inl err \<Rightarrow> w_replaced | Inr w \<Rightarrow> w)"

section \<open>Lists with node identity\<close>

text \<open>
  The facts about \<open>list_begin\<close>, \<open>list_next\<close>, \<open>list_erase\<close> and \<open>list_assign\<close> that the
  proofs below need, and two facts about subsequences.
\<close>

lemma map_of_mid:
  "n \<notin> fst ` set pre \<Longrightarrow> map_of (pre @ (n, f) # rest) n = Some f"
  by (induction pre) auto

lemma list_next_mid:
  "n \<notin> fst ` set pre \<Longrightarrow> list_next a (pre @ (n, f) # rest) n = Some (list_begin a rest)"
  by (induction pre) auto

lemma list_begin_simps [simp]:
  "list_begin a [] = End a"
  "list_begin a ((n, f) # xs) = Node a n"
  by (simp_all add: list_begin_def)

lemma list_begin_Node:
  "list_begin a xs = Node b n \<longleftrightarrow> b = a \<and> (\<exists>f ys. xs = (n, f) # ys)"
  by (auto simp: list_begin_def split: list.splits)

lemma list_next_live: "n \<in> set (map fst cs) \<Longrightarrow> \<exists>nx. list_next a cs n = Some nx"
  by (induction cs) force+



lemma list_erase_filter: "list_erase m xs = filter (\<lambda>x. fst x \<noteq> m) xs"
  by (induction xs) (auto simp: list_erase_def)


lemma subseq_set: "subseq xs ys \<Longrightarrow> set xs \<subseteq> set ys"
  using list_emb_set [of "(=)" xs ys] by auto

lemma subseq_distinct: "subseq xs ys \<Longrightarrow> distinct ys \<Longrightarrow> distinct xs"
  using subseqs_distinctD [of xs ys] by (simp add: set_subseqs_eq)

section \<open>The operations of a channel\<close>

text \<open>
  What \<^verbatim>\<open>add\<close>, \<^verbatim>\<open>setEnabled\<close> and \<^verbatim>\<open>remove\<close> do to the list and to the cursor. For
  \<^verbatim>\<open>remove\<close> during a dispatch the list is split at the cursor: \<open>pre\<close> has been visited
  (it ends with the callback that is running), \<open>rest\<close> is still to come.
\<close>

lemma events_upd_event [simp]:
  "events (upd_event a f w) b = (if b = a then f (events w a) else events w b)"
  by (simp add: upd_event_def)

lemma upd_event_fields [simp]:
  "next_node (upd_event a f w) = next_node w"
  "next_obj (upd_event a f w) = next_obj w"
  "user (upd_event a f w) = user w"
  by (simp_all add: upd_event_def)

lemma nodes_user [simp]: "nodes a (w\<lparr>user := u\<rparr>) = nodes a w"
  by (simp add: nodes_def)

lemma Event_add_callbacks:
  "callbacks (events (fst (Event_add a c first w)) a) =
     (if first then (next_node w, c) # callbacks (events w a)
      else callbacks (events w a) @ [(next_node w, c)])"
  "enabled (events (fst (Event_add a c first w)) a) = enabled (events w a)"
  "nextCallback (events (fst (Event_add a c first w)) a) = nextCallback (events w a)"
  "b \<noteq> a \<Longrightarrow> events (fst (Event_add a c first w)) b = events w b"
  "next_node (fst (Event_add a c first w)) = Suc (next_node w)"
  "next_obj (fst (Event_add a c first w)) = next_obj w"
  "user (fst (Event_add a c first w)) = user w"
  "snd (Event_add a c first w) = Node a (next_node w)"
  by (simp_all add: Event_add_def Let_def)

lemma wf_event_add:
  assumes "wf_event b w"
  shows "wf_event b (fst (Event_add a c first w))"
proof (cases "b = a")
  case True
  then show ?thesis
    using assms by (auto simp: wf_event_def nodes_def Event_add_callbacks less_Suc_eq)
next
  case False
  then show ?thesis
    using assms by (auto simp: wf_event_def nodes_def Event_add_callbacks less_Suc_eq)
qed

lemma wf_event_init: "wf_event a (init_world u)"
  by (simp add: wf_event_def nodes_def init_world_def Event_init_def)

lemma wf_world_add: "wf_world w \<Longrightarrow> wf_world (fst (Event_add a c first w))"
  by (simp add: wf_world_def wf_event_add)

lemma wf_world_next_obj: "wf_world (w\<lparr>next_obj := k\<rparr>) = wf_world w"
  by (simp add: wf_world_def wf_event_def nodes_def)

lemma wf_world_init: "wf_world (init_world u)"
  by (simp add: wf_world_def wf_event_init)

lemma wf_world_adds: "wf_world w \<Longrightarrow> wf_world (Event_adds a ops w)"
  by (induction ops arbitrary: w) (auto simp: wf_world_add)

lemma Event_adds_callbacks:
  "wf_event a w \<Longrightarrow>
   wf_event a (Event_adds a ops w) \<and>
   map snd (callbacks (events (Event_adds a ops w) a)) =
     rev (map fst (filter snd ops)) @ map snd (callbacks (events w a)) @
     map fst (filter (\<lambda>x. \<not> snd x) ops) \<and>
   enabled (events (Event_adds a ops w) a) = enabled (events w a)"
proof (induction ops arbitrary: w)
  case Nil
  then show ?case by simp
next
  case (Cons x ops)
  obtain c first where x: "x = (c, first)" by (cases x)
  have wf: "wf_event a (fst (Event_add a c first w))"
    using Cons.prems by (rule wf_event_add)
  show ?case
    using Cons.IH [OF wf] unfolding x
    by (simp add: Event_add_callbacks)
qed

lemma setEnabled_roundtrip:
  assumes "Event_isEnabled a w"
  shows "Event_setEnabled a True (Event_setEnabled a False w) = w"
proof -
  have "(events w a)\<lparr>enabled := True\<rparr> = events w a"
    using assms by (simp add: Event_isEnabled_def)
  then show ?thesis
    by (simp add: Event_setEnabled_def upd_event_def)
qed

lemma Event_remove_node:
  assumes "n \<in> set (nodes a w)"
  shows "\<exists>w'. Event_remove a (Node a n) w = Inr (w', End a) \<and>
          callbacks (events w' a) = list_erase n (callbacks (events w a)) \<and>
          enabled (events w' a) = enabled (events w a) \<and>
          (\<forall>b. b \<noteq> a \<longrightarrow> events w' b = events w b) \<and>
          next_node w' = next_node w \<and> next_obj w' = next_obj w \<and> user w' = user w"
proof -
  have live: "n \<in> set (map fst (callbacks (events w a)))"
    using assms by (simp add: nodes_def)
  obtain nx where nx: "list_next a (callbacks (events w a)) n = Some nx"
    using list_next_live [OF live] by blast
  show ?thesis
    using live nx by (auto simp: Event_remove_def Let_def)
qed

lemma Event_remove_other:
  assumes "Event_remove a cid w = Inr (w', cid')" and "b \<noteq> a"
  shows "events w' b = events w b"
  using assms
  by (auto simp: Event_remove_def Let_def split: if_splits CallbackID.splits option.splits)

lemma wf_event_remove:
  assumes wf: "wf_event b w" and r: "Event_remove a cid w = Inr (w', cid')"
  shows "wf_event b w'"
proof (cases "b = a")
  case False
  have "next_node w' = next_node w"
    using r by (auto simp: Event_remove_def Let_def
        split: if_splits CallbackID.splits option.splits)
  then show ?thesis
    using wf Event_remove_other [OF r False] by (simp add: wf_event_def nodes_def)
next
  case True
  show ?thesis
  proof (cases "cid = End a")
    case True
    then show ?thesis using wf r by (simp add: Event_remove_def)
  next
    case False
    then obtain n where n: "cid = Node a n" and live: "n \<in> set (nodes a w)"
      using r by (auto simp: Event_remove_def Let_def nodes_def
          split: if_splits CallbackID.splits)
    obtain v where v: "Event_remove a (Node a n) w = Inr (v, End a)"
      and c: "callbacks (events v a) = list_erase n (callbacks (events w a))"
      and k: "next_node v = next_node w"
      using Event_remove_node [OF live] by blast
    have w': "w' = v" using r v n by simp
    have "distinct (map fst (list_erase n (callbacks (events w a))))"
      using wf \<open>b = a\<close> unfolding list_erase_filter wf_event_def nodes_def
      by (simp add: distinct_map_filter)
    moreover have "\<forall>m \<in> set (map fst (list_erase n (callbacks (events w a)))). m < next_node w"
      using wf \<open>b = a\<close> unfolding list_erase_filter wf_event_def nodes_def by auto
    ultimately show ?thesis
      using \<open>b = a\<close> by (simp add: w' wf_event_def nodes_def c k)
  qed
qed

lemma Event_remove_live:
  assumes cs: "callbacks (events w a) = pre @ rest"
    and d: "distinct (map fst (pre @ rest))"
    and cur: "nextCallback (events w a) = list_begin a rest"
    and live: "m \<in> fst ` set (pre @ rest)"
  shows "\<exists>w'. Event_remove a (Node a m) w = Inr (w', End a) \<and>
          callbacks (events w' a) = list_erase m pre @ list_erase m rest \<and>
          nextCallback (events w' a) = list_begin a (list_erase m rest) \<and>
          enabled (events w' a) = enabled (events w a) \<and>
          (\<forall>b. b \<noteq> a \<longrightarrow> events w' b = events w b) \<and>
          next_node w' = next_node w \<and> next_obj w' = next_obj w \<and> user w' = user w"
proof (cases "nextCallback (events w a) = Node a m")
  case True
  then obtain f ys where rest: "rest = (m, f) # ys"
    using cur by (auto simp: list_begin_Node)
  have np: "m \<notin> fst ` set pre" and ny: "m \<notin> fst ` set ys"
    using d rest by auto
  have nx: "list_next a (pre @ rest) m = Some (list_begin a ys)"
    using np rest by (simp add: list_next_mid)
  have er: "list_erase m rest = ys"
    using ny unfolding rest list_erase_def by (force simp: filter_id_conv)
  show ?thesis
    using True live cs nx er
    by (simp add: Event_remove_def Let_def list_erase_def)
next
  case False
  have "list_begin a (list_erase m rest) = list_begin a rest"
    using False cur by (cases rest) (auto simp: list_begin_def list_erase_def)
  then show ?thesis
    using False live cs cur
    by (simp add: Event_remove_def Let_def list_erase_def)
qed

lemma removes_live:
  assumes "callbacks (events w a) = pre @ rest"
    and "distinct (map fst (pre @ rest))"
    and "nextCallback (events w a) = list_begin a rest"
    and "distinct ns" and "set ns \<subseteq> fst ` set (pre @ rest)"
  shows "\<exists>w'. removes a ns w = Inr w' \<and>
          callbacks (events w' a) =
            filter (\<lambda>x. fst x \<notin> set ns) pre @ filter (\<lambda>x. fst x \<notin> set ns) rest \<and>
          nextCallback (events w' a) = list_begin a (filter (\<lambda>x. fst x \<notin> set ns) rest) \<and>
          enabled (events w' a) = enabled (events w a) \<and>
          (\<forall>b. b \<noteq> a \<longrightarrow> events w' b = events w b) \<and>
          next_node w' = next_node w \<and> next_obj w' = next_obj w \<and> user w' = user w"
  using assms
proof (induction ns arbitrary: w pre rest)
  case Nil
  then show ?case by simp
next
  case (Cons m ns)
  have live: "m \<in> fst ` set (pre @ rest)" using Cons.prems(5) by simp
  obtain w1 where r: "Event_remove a (Node a m) w = Inr (w1, End a)"
    and c1: "callbacks (events w1 a) = list_erase m pre @ list_erase m rest"
    and n1: "nextCallback (events w1 a) = list_begin a (list_erase m rest)"
    and e1: "enabled (events w1 a) = enabled (events w a)"
    and o1: "\<forall>b. b \<noteq> a \<longrightarrow> events w1 b = events w b"
    and f1: "next_node w1 = next_node w" "next_obj w1 = next_obj w" "user w1 = user w"
    using Event_remove_live [OF Cons.prems(1) Cons.prems(2) Cons.prems(3) live] by blast
  have d1: "distinct (map fst (list_erase m pre @ list_erase m rest))"
    using Cons.prems(2) unfolding list_erase_filter filter_append [symmetric]
    by (rule distinct_map_filter)
  have s1: "set ns \<subseteq> fst ` set (list_erase m pre @ list_erase m rest)"
    using Cons.prems(4) Cons.prems(5) unfolding list_erase_filter by force
  have dn: "distinct ns" using Cons.prems(4) by simp
  obtain w' where r': "removes a ns w1 = Inr w'"
    and c': "callbacks (events w' a) =
            filter (\<lambda>x. fst x \<notin> set ns) (list_erase m pre) @
            filter (\<lambda>x. fst x \<notin> set ns) (list_erase m rest)"
    and n': "nextCallback (events w' a) =
            list_begin a (filter (\<lambda>x. fst x \<notin> set ns) (list_erase m rest))"
    and e': "enabled (events w' a) = enabled (events w1 a)"
    and o': "\<forall>b. b \<noteq> a \<longrightarrow> events w' b = events w1 b"
    and f': "next_node w' = next_node w1" "next_obj w' = next_obj w1" "user w' = user w1"
    using Cons.IH [OF c1 d1 n1 dn s1] by blast
  have flt: "\<And>xs. filter (\<lambda>x. fst x \<notin> set ns) (list_erase m xs) =
                  filter (\<lambda>x. fst x \<notin> set (m # ns)) xs"
    unfolding list_erase_filter by (auto intro: filter_cong)
  show ?case
    using r r' c' n' e' o' f' e1 o1 f1 by (simp add: flt)
qed

section \<open>The dispatch loop\<close>




lemma notify_loop_removing:
  assumes rm: "removing call a"
  shows "callbacks (events w a) = pre @ rest \<Longrightarrow> distinct (map fst (pre @ rest)) \<Longrightarrow>
         \<exists>t' w' tr'. notify_loop call a (list_begin a rest) t w tr = Some (Inr (t', w', tr @ tr'))
            \<and> loop_post a pre rest w w' tr'"
proof (induction "length rest" arbitrary: rest pre w t tr rule: less_induct)
  case less
  show ?case
  proof (cases rest)
    case Nil
    have "notify_loop call a (End a) t w tr = Some (Inr (t, w, tr))"
      by (subst notify_loop.simps) simp
    moreover have "loop_post a pre [] w w ([] :: ('a, 'b) invocation list)"
      using less.prems(1) Nil
      by (auto simp: loop_post_def intro: exI [of _ "{}"])
    ultimately show ?thesis using Nil by auto
  next
    case (Cons nf rest')
    obtain n f where nf: "nf = (n, f)" by (cases nf)
    let ?w1 = "upd_event a (\<lambda>e. e\<lparr>nextCallback := list_begin a rest'\<rparr>) w"
    have rest: "rest = (n, f) # rest'" using Cons nf by simp
    have np: "n \<notin> fst ` set pre" using less.prems(2) rest by auto
    have nx: "list_next a (callbacks (events w a)) n = Some (list_begin a rest')"
      using less.prems(1) rest np by (simp add: list_next_mid)
    have mo: "map_of (callbacks (events w a)) n = Some f"
      unfolding less.prems(1) rest by (rule map_of_mid [OF np])
    obtain ns t1 u where dns: "distinct ns" and sns: "set ns \<subseteq> set (nodes a ?w1)"
      and cl: "call f t ?w1 = (case removes a ns ?w1 of Inl err \<Rightarrow> Inl (Undefined err)
                               | Inr w' \<Rightarrow> Inr (t1, w'\<lparr>user := u\<rparr>))"
      using rm unfolding removing_def by blast
    let ?P = "\<lambda>x::node \<times> 'a. fst x \<notin> set ns"
    have c1: "callbacks (events ?w1 a) = (pre @ [(n, f)]) @ rest'"
      using less.prems(1) rest by simp
    have d1: "distinct (map fst ((pre @ [(n, f)]) @ rest'))"
      using less.prems(2) rest by simp
    have n1: "nextCallback (events ?w1 a) = list_begin a rest'" by simp
    have s1: "set ns \<subseteq> fst ` set ((pre @ [(n, f)]) @ rest')"
      using sns c1 by (simp add: nodes_def)
    obtain w2 where r2: "removes a ns ?w1 = Inr w2"
      and c2: "callbacks (events w2 a) = filter ?P (pre @ [(n, f)]) @ filter ?P rest'"
      and n2: "nextCallback (events w2 a) = list_begin a (filter ?P rest')"
      and e2: "enabled (events w2 a) = enabled (events ?w1 a)"
      and o2: "\<forall>b. b \<noteq> a \<longrightarrow> events w2 b = events ?w1 b"
      and f2: "next_node w2 = next_node ?w1" "next_obj w2 = next_obj ?w1"
      using removes_live [OF c1 d1 n1 dns s1] by blast
    let ?w3 = "w2\<lparr>user := u\<rparr>"
    let ?i = "\<lparr>inv_node = n, inv_callback = f, inv_arg = t, inv_live = nodes a w\<rparr>"
    have cl': "call f t ?w1 = Inr (t1, ?w3)" using cl r2 by simp
    have c3: "callbacks (events ?w3 a) = filter ?P (pre @ [(n, f)]) @ filter ?P rest'"
      using c2 by simp
    have d3: "distinct (map fst (filter ?P (pre @ [(n, f)]) @ filter ?P rest'))"
      using d1 unfolding filter_append [symmetric] by (rule distinct_map_filter)
    have len: "length (filter ?P rest') < length rest"
      using rest by (simp add: le_imp_less_Suc)
    obtain t' w' tr' where
      l3: "notify_loop call a (list_begin a (filter ?P rest')) t1 ?w3 (tr @ [?i]) =
             Some (Inr (t', w', (tr @ [?i]) @ tr'))"
      and p3: "loop_post a (filter ?P (pre @ [(n, f)])) (filter ?P rest') ?w3 w' tr'"
      using less.hyps [OF len c3 d3] by blast
    have step: "notify_loop call a (list_begin a rest) t w tr =
                notify_loop call a (list_begin a (filter ?P rest')) t1 ?w3 (tr @ [?i])"
      unfolding rest
      by (subst notify_loop.simps) (simp add: nx mo cl' n2)
    have sub: "subseq (map inv_node (?i # tr')) (map fst rest)"
    proof -
      have "subseq (map inv_node tr') (map fst (filter ?P rest'))"
        using p3 by (simp add: loop_post_def)
      moreover have "subseq (map fst (filter ?P rest')) (map fst rest')"
        by (simp add: subseq_map)
      ultimately have "subseq (map inv_node tr') (map fst rest')"
        by (rule subseq_order.trans)
      then show ?thesis using rest by simp
    qed
    have inr: "\<forall>i \<in> set tr'. (inv_node i, inv_callback i) \<in> set rest'"
      using p3 by (auto simp: loop_post_def)
    have hon: "honoured (?i # tr')"
    proof -
      have "\<forall>j \<in> set tr'. inv_node j \<in> fst ` set rest'"
        using inr by force
      moreover have "honoured tr'"
        using p3 by (simp add: loop_post_def)
      ultimately show ?thesis
        using less.prems(1) rest by (auto simp: nodes_def)
    qed
    have cbs: "\<exists>S. callbacks (events w' a) = filter (\<lambda>x. fst x \<notin> S) (pre @ rest)"
    proof -
      obtain S where "callbacks (events w' a) =
          filter (\<lambda>x. fst x \<notin> S) (filter ?P (pre @ [(n, f)]) @ filter ?P rest')"
        using p3 by (auto simp: loop_post_def)
      moreover have "filter (\<lambda>x. fst x \<notin> S) (filter ?P xs) =
                     filter (\<lambda>x. fst x \<notin> set ns \<union> S) xs" for xs
        by (induction xs) auto
      ultimately have "callbacks (events w' a) =
                       filter (\<lambda>x. fst x \<notin> set ns \<union> S) (pre @ rest)"
        unfolding rest filter_append [symmetric] by simp
      then show ?thesis by blast
    qed
    have cov: "set (nodes a w') \<inter> fst ` set rest \<subseteq> set (map inv_node (?i # tr'))"
    proof
      fix x assume x: "x \<in> set (nodes a w') \<inter> fst ` set rest"
      obtain S where S: "callbacks (events w' a) =
          filter (\<lambda>x. fst x \<notin> S) (filter ?P (pre @ [(n, f)]) @ filter ?P rest')"
        using p3 by (auto simp: loop_post_def)
      show "x \<in> set (map inv_node (?i # tr'))"
      proof (cases "x = n")
        case True then show ?thesis by simp
      next
        case False
        then have xr: "x \<in> fst ` set rest'" using x rest by auto
        have "callbacks (events w' a) =
              filter (\<lambda>x. fst x \<notin> S) (filter ?P ((pre @ [(n, f)]) @ rest'))"
          using S by (simp only: filter_append)
        then have "set (nodes a w') \<subseteq> fst ` {y. ?P y}"
          unfolding nodes_def by auto
        then have "x \<notin> set ns" using x by auto
        then have "x \<in> fst ` set (filter ?P rest')" using xr by auto
        then have "x \<in> set (map inv_node tr')"
          using p3 x by (auto simp: loop_post_def)
        then show ?thesis by simp
      qed
    qed
    have oth: "enabled (events w' a) = enabled (events w a) \<and>
               (\<forall>b. b \<noteq> a \<longrightarrow> events w' b = events w b) \<and>
               next_node w' = next_node w \<and> next_obj w' = next_obj w"
      using p3 e2 o2 f2 by (auto simp: loop_post_def)
    have "loop_post a pre rest w w' (?i # tr')"
      unfolding loop_post_def
      using sub hon inr cbs cov oth rest by auto
    moreover have "notify_loop call a (list_begin a rest) t w tr =
                   Some (Inr (t', w', tr @ (?i # tr')))"
      using step l3 by simp
    ultimately show ?thesis by blast
  qed
qed





lemma Event_notify_removing:
  assumes rm: "removing call a" and d: "distinct (nodes a w)"
  shows "\<exists>t' w' tr. Event_notify call a t w = Some (Inr (t', w', tr)) \<and>
          subseq (map inv_node tr) (nodes a w) \<and>
          honoured tr \<and>
          (\<forall>i \<in> set tr. (inv_node i, inv_callback i) \<in> set (callbacks (events w a))) \<and>
          (\<exists>S. callbacks (events w' a) =
                 filter (\<lambda>x. fst x \<notin> S) (callbacks (events w a))) \<and>
          (Event_isEnabled a w \<longrightarrow> set (nodes a w') \<subseteq> set (map inv_node tr)) \<and>
          (\<not> Event_isEnabled a w \<longrightarrow> w' = w \<and> tr = []) \<and>
          Event_isEnabled a w' = Event_isEnabled a w \<and>
          distinct (nodes a w') \<and>
          (\<forall>b. b \<noteq> a \<longrightarrow> events w' b = events w b) \<and>
          next_node w' = next_node w \<and> next_obj w' = next_obj w"
proof (cases "enabled (events w a)")
  case False
  have "\<exists>S. callbacks (events w a) = filter (\<lambda>x. fst x \<notin> S) (callbacks (events w a))"
    by (rule exI [of _ "{}"]) simp
  then show ?thesis
    using False d by (simp add: Event_notify_def Event_isEnabled_def)
next
  case True
  have c: "callbacks (events w a) = [] @ callbacks (events w a)" by simp
  have d': "distinct (map fst ([] @ callbacks (events w a)))"
    using d by (simp add: nodes_def)
  obtain t' w' tr where
    l: "notify_loop call a (list_begin a (callbacks (events w a))) t w [] =
          Some (Inr (t', w', [] @ tr))"
    and p: "loop_post a [] (callbacks (events w a)) w w' tr"
    using notify_loop_removing [OF rm c d', of t "[]"] by blast
  let ?w = "upd_event a (\<lambda>e. e\<lparr>nextCallback := End a\<rparr>) w'"
  have r: "Event_notify call a t w = Some (Inr (t', ?w, tr))"
    using True l by (simp add: Event_notify_def)
  obtain S where S: "callbacks (events w' a) =
      filter (\<lambda>x. fst x \<notin> S) (callbacks (events w a))"
    using p by (auto simp: loop_post_def)
  have dd: "distinct (nodes a ?w)"
    using d S by (simp add: nodes_def distinct_map_filter)
  have cov: "set (nodes a ?w) \<subseteq> set (map inv_node tr)"
  proof -
    have "set (nodes a w') \<subseteq> fst ` set (callbacks (events w a))"
      using S by (auto simp: nodes_def)
    moreover have "set (nodes a w') \<inter> fst ` set (callbacks (events w a)) \<subseteq>
                   set (map inv_node tr)"
      using p by (simp add: loop_post_def)
    ultimately have "set (nodes a w') \<subseteq> set (map inv_node tr)"
      by (meson Int_greatest order_refl order_trans)
    moreover have "nodes a ?w = nodes a w'"
      by (simp add: nodes_def)
    ultimately show ?thesis by (simp only:)
  qed
  have "subseq (map inv_node tr) (nodes a w)"
    "honoured tr"
    "\<forall>i \<in> set tr. (inv_node i, inv_callback i) \<in> set (callbacks (events w a))"
    "Event_isEnabled a ?w = Event_isEnabled a w"
    "\<forall>b. b \<noteq> a \<longrightarrow> events ?w b = events w b"
    "next_node ?w = next_node w" "next_obj ?w = next_obj w"
    using p by (simp_all add: loop_post_def nodes_def Event_isEnabled_def)
  moreover have "\<exists>S. callbacks (events ?w a) =
      filter (\<lambda>x. fst x \<notin> S) (callbacks (events w a))"
    using S by auto
  ultimately show ?thesis
    using r dd cov True by (simp add: Event_isEnabled_def)
qed

section \<open>The dispatch as specified\<close>

text \<open>
  Properties of \<open>dispatch_spec\<close>: the callbacks invoked are a subsequence of the list, no
  callback is invoked after its removal was asked for, and every callback of the list is
  invoked or its removal was asked for.
\<close>

lemma asked_simps [simp]:
  "asked [] = {}"
  "asked ((n, f, x, hs) # steps) = set hs \<union> asked steps"
  by (auto simp: asked_def)

lemma dispatch_spec_nodes:
  "dispatch_spec beh cs t u = (steps, t', u') \<Longrightarrow> subseq (map fst steps) (map fst cs)"
proof (induction beh cs t u arbitrary: steps t' u' rule: dispatch_spec.induct)
  case (1 beh t u)
  then show ?case by simp
next
  case (2 beh n f rest t u)
  obtain hs t1 u1 where b: "beh f t u = (hs, t1, u1)" by (cases "beh f t u")
  obtain st t2 u2 where
    r: "dispatch_spec beh (filter (\<lambda>x. fst x \<notin> set hs) rest) t1 u1 = (st, t2, u2)"
    by (cases "dispatch_spec beh (filter (\<lambda>x. fst x \<notin> set hs) rest) t1 u1")
  have steps: "steps = (n, f, t, hs) # st" using "2.prems" b r by simp
  have "subseq (map fst st) (map fst (filter (\<lambda>x. fst x \<notin> set hs) rest))"
    using "2.IH" [OF b [symmetric] refl r] .
  moreover have "subseq (map fst (filter (\<lambda>x. fst x \<notin> set hs) rest)) (map fst rest)"
    by (simp add: subseq_map)
  ultimately have "subseq (map fst st) (map fst rest)"
    by (rule subseq_order.trans)
  then show ?case using steps by simp
qed

lemma dispatch_spec_skips:
  "dispatch_spec beh cs t u = (steps, t', u') \<Longrightarrow>
   steps = xs @ (n, f, x, hs) # ys \<Longrightarrow> set hs \<inter> fst ` set ys = {}"
proof (induction beh cs t u arbitrary: steps t' u' xs rule: dispatch_spec.induct)
  case (1 beh t u)
  then show ?case by simp
next
  case (2 beh m g rest t u)
  obtain hs1 t1 u1 where b: "beh g t u = (hs1, t1, u1)" by (cases "beh g t u")
  obtain st t2 u2 where
    r: "dispatch_spec beh (filter (\<lambda>x. fst x \<notin> set hs1) rest) t1 u1 = (st, t2, u2)"
    by (cases "dispatch_spec beh (filter (\<lambda>x. fst x \<notin> set hs1) rest) t1 u1")
  have steps: "steps = (m, g, t, hs1) # st" using "2.prems"(1) b r by simp
  show ?case
  proof (cases xs)
    case Nil
    then have e: "hs = hs1" "ys = st" using steps "2.prems"(2) by simp_all
    have "set (map fst st) \<subseteq> set (map fst (filter (\<lambda>x. fst x \<notin> set hs1) rest))"
      using dispatch_spec_nodes [OF r] by (rule subseq_set)
    then show ?thesis unfolding e by auto
  next
    case (Cons z zs)
    then have "st = zs @ (n, f, x, hs) # ys" using steps "2.prems"(2) by simp
    then show ?thesis using "2.IH" [OF b [symmetric] refl r] by blast
  qed
qed

lemma dispatch_spec_covers:
  "dispatch_spec beh cs t u = (steps, t', u') \<Longrightarrow>
   fst ` set cs \<subseteq> fst ` set steps \<union> asked steps"
proof (induction beh cs t u arbitrary: steps t' u' rule: dispatch_spec.induct)
  case (1 beh t u)
  then show ?case by simp
next
  case (2 beh m g rest t u)
  obtain hs1 t1 u1 where b: "beh g t u = (hs1, t1, u1)" by (cases "beh g t u")
  obtain st t2 u2 where
    r: "dispatch_spec beh (filter (\<lambda>x. fst x \<notin> set hs1) rest) t1 u1 = (st, t2, u2)"
    by (cases "dispatch_spec beh (filter (\<lambda>x. fst x \<notin> set hs1) rest) t1 u1")
  have steps: "steps = (m, g, t, hs1) # st" using "2.prems"(1) b r by simp
  have "fst ` set (filter (\<lambda>x. fst x \<notin> set hs1) rest) \<subseteq> fst ` set st \<union> asked st"
    using "2.IH" [OF b [symmetric] refl r] .
  then show ?case unfolding steps by auto
qed

lemma dispatch_spec_observer:
  "dispatch_spec (\<lambda>c t u. ([], t, step c t u)) cs t u =
     (map (\<lambda>(n, f). (n, f, t, [])) cs, t, foldl (\<lambda>u c. step c t u) u (map snd cs))"
  by (induction cs arbitrary: u) auto

section \<open>The dispatch loop with subscribers of a given behaviour\<close>

text \<open>
  With callbacks that behave as \<open>beh\<close> says the loop of \<^verbatim>\<open>notify\<close> returns and does
  what \<open>dispatch_spec\<close> says; for observers that is one call of each callback, in order.
  A callback that throws at the first position ends \<^verbatim>\<open>notify\<close> with the state in which
  it threw.
\<close>

lemma removing_subscriber: "removing (subscriber a beh) a"
  unfolding removing_def
proof (intro allI)
  fix c t and w :: "('a, 'c) world"
  obtain hs t1 u1 where b: "beh c t (user w) = (hs, t1, u1)" by (cases "beh c t (user w)")
  let ?ns = "remdups (filter (\<lambda>n. n \<in> set (nodes a w)) hs)"
  have "distinct ?ns" "set ?ns \<subseteq> set (nodes a w)" by auto
  moreover have "subscriber a beh c t w =
      (case removes a ?ns w of Inl err \<Rightarrow> Inl (Undefined err)
       | Inr w' \<Rightarrow> Inr (t1, w'\<lparr>user := u1\<rparr>))"
    by (simp add: subscriber_def b)
  ultimately show "\<exists>ns t' u. distinct ns \<and> set ns \<subseteq> set (nodes a w) \<and>
      subscriber a beh c t w =
        (case removes a ns w of Inl err \<Rightarrow> Inl (Undefined err)
         | Inr w' \<Rightarrow> Inr (t', w'\<lparr>user := u\<rparr>))"
    by blast
qed

lemma subscriber_step:
  assumes cs: "callbacks (events w a) = pre @ rest"
    and d: "distinct (map fst (pre @ rest))"
    and cur: "nextCallback (events w a) = list_begin a rest"
    and b: "beh f t (user w) = (hs, t1, u1)"
  shows "\<exists>w'. subscriber a beh f t w = Inr (t1, w') \<and>
          callbacks (events w' a) =
            filter (\<lambda>x. fst x \<notin> set hs) pre @ filter (\<lambda>x. fst x \<notin> set hs) rest \<and>
          nextCallback (events w' a) = list_begin a (filter (\<lambda>x. fst x \<notin> set hs) rest) \<and>
          enabled (events w' a) = enabled (events w a) \<and>
          (\<forall>b. b \<noteq> a \<longrightarrow> events w' b = events w b) \<and>
          next_node w' = next_node w \<and> next_obj w' = next_obj w \<and> user w' = u1"
proof -
  let ?ns = "remdups (filter (\<lambda>n. n \<in> set (nodes a w)) hs)"
  have dn: "distinct ?ns" by simp
  have sn: "set ?ns \<subseteq> fst ` set (pre @ rest)"
    using cs by (auto simp: nodes_def)
  obtain w2 where r2: "removes a ?ns w = Inr w2"
    and c2: "callbacks (events w2 a) =
               filter (\<lambda>x. fst x \<notin> set ?ns) pre @ filter (\<lambda>x. fst x \<notin> set ?ns) rest"
    and n2: "nextCallback (events w2 a) = list_begin a (filter (\<lambda>x. fst x \<notin> set ?ns) rest)"
    and e2: "enabled (events w2 a) = enabled (events w a)"
    and o2: "\<forall>b. b \<noteq> a \<longrightarrow> events w2 b = events w b"
    and f2: "next_node w2 = next_node w" "next_obj w2 = next_obj w"
    using removes_live [OF cs d cur dn sn] by blast
  have flt: "filter (\<lambda>x. fst x \<notin> set ?ns) xs = filter (\<lambda>x. fst x \<notin> set hs) xs"
    if "set xs \<subseteq> set (pre @ rest)" for xs
    using that cs by (intro filter_cong) (auto simp: nodes_def)
  have r: "subscriber a beh f t w = Inr (t1, w2\<lparr>user := u1\<rparr>)"
    by (simp add: subscriber_def b r2)
  have fp: "filter (\<lambda>x. fst x \<notin> set ?ns) pre = filter (\<lambda>x. fst x \<notin> set hs) pre"
    by (rule flt) simp
  have fr: "filter (\<lambda>x. fst x \<notin> set ?ns) rest = filter (\<lambda>x. fst x \<notin> set hs) rest"
    by (rule flt) simp
  show ?thesis
    using r c2 n2 e2 o2 f2 unfolding fp fr by simp
qed

lemma notify_loop_subscriber:
  "callbacks (events w a) = pre @ rest \<Longrightarrow> distinct (map fst (pre @ rest)) \<Longrightarrow>
   dispatch_spec beh rest t (user w) = (steps, t', u') \<Longrightarrow>
   \<exists>w' tr'. notify_loop (subscriber a beh) a (list_begin a rest) t w tr =
               Some (Inr (t', w', tr @ tr')) \<and>
      map (\<lambda>i. (inv_node i, inv_callback i, inv_arg i)) tr' =
        map (\<lambda>(n, f, x, hs). (n, f, x)) steps \<and>
      callbacks (events w' a) = filter (\<lambda>x. fst x \<notin> asked steps) (pre @ rest) \<and>
      user w' = u' \<and>
      enabled (events w' a) = enabled (events w a) \<and>
      (\<forall>b. b \<noteq> a \<longrightarrow> events w' b = events w b) \<and>
      next_node w' = next_node w \<and> next_obj w' = next_obj w"
proof (induction "length rest" arbitrary: rest pre w t tr steps rule: less_induct)
  case less
  show ?case
  proof (cases rest)
    case Nil
    have "notify_loop (subscriber a beh) a (End a) t w tr = Some (Inr (t, w, tr))"
      by (subst notify_loop.simps) simp
    then show ?thesis using Nil less.prems by auto
  next
    case (Cons nf rest')
    obtain n f where nf: "nf = (n, f)" by (cases nf)
    have rest: "rest = (n, f) # rest'" using Cons nf by simp
    let ?w1 = "upd_event a (\<lambda>e. e\<lparr>nextCallback := list_begin a rest'\<rparr>) w"
    let ?i = "\<lparr>inv_node = n, inv_callback = f, inv_arg = t, inv_live = nodes a w\<rparr>"
    obtain hs t1 u1 where b: "beh f t (user w) = (hs, t1, u1)"
      by (cases "beh f t (user w)")
    let ?P = "\<lambda>x::node \<times> 'a. fst x \<notin> set hs"
    obtain st where sp: "dispatch_spec beh (filter ?P rest') t1 u1 = (st, t', u')"
      and steps: "steps = (n, f, t, hs) # st"
      using less.prems(3) b unfolding rest by (auto split: prod.splits)
    have np: "n \<notin> fst ` set pre" using less.prems(2) rest by auto
    have nx: "list_next a (callbacks (events w a)) n = Some (list_begin a rest')"
      using less.prems(1) rest np by (simp add: list_next_mid)
    have mo: "map_of (callbacks (events w a)) n = Some f"
      unfolding less.prems(1) rest by (rule map_of_mid [OF np])
    have c1: "callbacks (events ?w1 a) = (pre @ [(n, f)]) @ rest'"
      using less.prems(1) rest by simp
    have d1: "distinct (map fst ((pre @ [(n, f)]) @ rest'))"
      using less.prems(2) rest by simp
    have n1: "nextCallback (events ?w1 a) = list_begin a rest'" by simp
    have b1: "beh f t (user ?w1) = (hs, t1, u1)" using b by simp
    obtain w2 where cl: "subscriber a beh f t ?w1 = Inr (t1, w2)"
      and c2: "callbacks (events w2 a) = filter ?P (pre @ [(n, f)]) @ filter ?P rest'"
      and n2: "nextCallback (events w2 a) = list_begin a (filter ?P rest')"
      and e2: "enabled (events w2 a) = enabled (events ?w1 a)"
      and o2: "\<forall>b. b \<noteq> a \<longrightarrow> events w2 b = events ?w1 b"
      and f2: "next_node w2 = next_node ?w1" "next_obj w2 = next_obj ?w1" "user w2 = u1"
      using subscriber_step [where beh = beh, OF c1 d1 n1 b1] by blast
    have d2: "distinct (map fst (filter ?P (pre @ [(n, f)]) @ filter ?P rest'))"
      using d1 unfolding filter_append [symmetric] by (rule distinct_map_filter)
    have len: "length (filter ?P rest') < length rest"
      using rest by (simp add: le_imp_less_Suc)
    have sp2: "dispatch_spec beh (filter ?P rest') t1 (user w2) = (st, t', u')"
      using sp f2 by simp
    obtain w' tr' where
      l3: "notify_loop (subscriber a beh) a (list_begin a (filter ?P rest')) t1 w2 (tr @ [?i]) =
             Some (Inr (t', w', (tr @ [?i]) @ tr'))"
      and p3: "map (\<lambda>i. (inv_node i, inv_callback i, inv_arg i)) tr' =
                 map (\<lambda>(n, f, x, hs). (n, f, x)) st"
        "callbacks (events w' a) =
           filter (\<lambda>x. fst x \<notin> asked st) (filter ?P (pre @ [(n, f)]) @ filter ?P rest')"
        "user w' = u'"
        "enabled (events w' a) = enabled (events w2 a)"
        "\<forall>b. b \<noteq> a \<longrightarrow> events w' b = events w2 b"
        "next_node w' = next_node w2" "next_obj w' = next_obj w2"
      using less.hyps [OF len c2 d2 sp2, of "tr @ [?i]"] by blast
    have step: "notify_loop (subscriber a beh) a (list_begin a rest) t w tr =
                notify_loop (subscriber a beh) a (list_begin a (filter ?P rest')) t1 w2
                  (tr @ [?i])"
      unfolding rest
      by (subst notify_loop.simps) (simp add: nx mo cl n2)
    have run: "notify_loop (subscriber a beh) a (list_begin a rest) t w tr =
               Some (Inr (t', w', tr @ (?i # tr')))"
      using step l3 by simp
    have tr: "map (\<lambda>i. (inv_node i, inv_callback i, inv_arg i)) (?i # tr') =
              map (\<lambda>(n, f, x, hs). (n, f, x)) steps"
      using p3(1) steps by simp
    have ff: "filter (\<lambda>x. fst x \<notin> asked st) (filter ?P xs) =
              filter (\<lambda>x. fst x \<notin> asked steps) xs" for xs :: "(node \<times> 'a) list"
      unfolding steps by (induction xs) auto
    have "filter ?P (pre @ [(n, f)]) @ filter ?P rest' = filter ?P (pre @ rest)"
      unfolding rest by simp
    then have "callbacks (events w' a) =
               filter (\<lambda>x. fst x \<notin> asked st) (filter ?P (pre @ rest))"
      using p3(2) by (simp only:)
    then have cbs: "callbacks (events w' a) =
                    filter (\<lambda>x. fst x \<notin> asked steps) (pre @ rest)"
      by (simp only: ff)
    have oth: "enabled (events w' a) = enabled (events w a)"
      "\<forall>b. b \<noteq> a \<longrightarrow> events w' b = events w b"
      "next_node w' = next_node w" "next_obj w' = next_obj w"
      using p3 e2 o2 f2 by simp_all
    show ?thesis
      using run tr cbs p3(3) oth by blast
  qed
qed

lemma observer_subscriber: "observer step = subscriber a (\<lambda>c t u. ([], t, step c t u))"
  by (intro ext) (simp add: observer_def subscriber_def)

lemma Event_notify_subscriber:
  assumes d: "distinct (nodes a w)" and en: "Event_isEnabled a w"
    and sp: "dispatch_spec beh (callbacks (events w a)) t (user w) = (steps, t', u')"
  shows "\<exists>w' tr. Event_notify (subscriber a beh) a t w = Some (Inr (t', w', tr)) \<and>
      map (\<lambda>i. (inv_node i, inv_callback i, inv_arg i)) tr =
        map (\<lambda>(n, f, x, hs). (n, f, x)) steps \<and>
      callbacks (events w' a) =
        filter (\<lambda>x. fst x \<notin> asked steps) (callbacks (events w a)) \<and>
      user w' = u' \<and> cursor_idle a w' \<and> Event_isEnabled a w' \<and>
      (\<forall>b. b \<noteq> a \<longrightarrow> events w' b = events w b) \<and>
      next_node w' = next_node w \<and> next_obj w' = next_obj w"
proof -
  have c: "callbacks (events w a) = [] @ callbacks (events w a)" by simp
  have d': "distinct (map fst ([] @ callbacks (events w a)))"
    using d by (simp add: nodes_def)
  have sp': "dispatch_spec beh (callbacks (events w a)) t (user w) = (steps, t', u')"
    using sp .
  obtain w' tr where
    l: "notify_loop (subscriber a beh) a (list_begin a (callbacks (events w a))) t w [] =
          Some (Inr (t', w', [] @ tr))"
    and p: "map (\<lambda>i. (inv_node i, inv_callback i, inv_arg i)) tr =
              map (\<lambda>(n, f, x, hs). (n, f, x)) steps"
      "callbacks (events w' a) =
         filter (\<lambda>x. fst x \<notin> asked steps) ([] @ callbacks (events w a))"
      "user w' = u'"
      "enabled (events w' a) = enabled (events w a)"
      "\<forall>b. b \<noteq> a \<longrightarrow> events w' b = events w b"
      "next_node w' = next_node w" "next_obj w' = next_obj w"
    using notify_loop_subscriber [OF c d' sp', of "[]"] by blast
  let ?w = "upd_event a (\<lambda>e. e\<lparr>nextCallback := End a\<rparr>) w'"
  have r: "Event_notify (subscriber a beh) a t w = Some (Inr (t', ?w, tr))"
    using en l by (simp add: Event_notify_def Event_isEnabled_def)
  have "callbacks (events ?w a) = filter (\<lambda>x. fst x \<notin> asked steps) (callbacks (events w a))"
    "user ?w = u'" "cursor_idle a ?w" "Event_isEnabled a ?w"
    "\<forall>b. b \<noteq> a \<longrightarrow> events ?w b = events w b"
    "next_node ?w = next_node w" "next_obj ?w = next_obj w"
    using p en by (simp_all add: cursor_idle_def Event_isEnabled_def)
  then show ?thesis using r p(1) by blast
qed

lemma Event_notify_observer:
  assumes d: "distinct (nodes a w)" and en: "Event_isEnabled a w"
  shows "\<exists>w' tr. Event_notify (observer step) a t w = Some (Inr (t, w', tr)) \<and>
      map inv_node tr = nodes a w \<and>
      map inv_callback tr = map snd (callbacks (events w a)) \<and>
      (\<forall>i \<in> set tr. inv_arg i = t) \<and>
      user w' = foldl (\<lambda>u c. step c t u) (user w) (map snd (callbacks (events w a))) \<and>
      callbacks (events w' a) = callbacks (events w a) \<and>
      cursor_idle a w' \<and> Event_isEnabled a w' \<and>
      (\<forall>b. b \<noteq> a \<longrightarrow> events w' b = events w b) \<and>
      next_node w' = next_node w \<and> next_obj w' = next_obj w"
proof -
  let ?cs = "callbacks (events w a)"
  let ?beh = "\<lambda>c t u. ([] :: node list, t, step c t u)"
  let ?steps = "map (\<lambda>(n, f). (n, f, t, [] :: node list)) ?cs"
  have sp: "dispatch_spec ?beh ?cs t (user w) =
              (?steps, t, foldl (\<lambda>u c. step c t u) (user w) (map snd ?cs))"
    by (rule dispatch_spec_observer)
  obtain w' tr where
    r: "Event_notify (subscriber a ?beh) a t w = Some (Inr (t, w', tr))"
    and m: "map (\<lambda>i. (inv_node i, inv_callback i, inv_arg i)) tr =
              map (\<lambda>(n, f, x, hs). (n, f, x)) ?steps"
    and p: "callbacks (events w' a) = filter (\<lambda>x. fst x \<notin> asked ?steps) ?cs"
      "user w' = foldl (\<lambda>u c. step c t u) (user w) (map snd ?cs)"
      "cursor_idle a w'" "Event_isEnabled a w'"
      "\<forall>b. b \<noteq> a \<longrightarrow> events w' b = events w b"
      "next_node w' = next_node w" "next_obj w' = next_obj w"
    using Event_notify_subscriber [OF d en sp] by blast
  have m': "map (\<lambda>i. (inv_node i, inv_callback i, inv_arg i)) tr = map (\<lambda>(n, f). (n, f, t)) ?cs"
    using m by (simp add: case_prod_beta comp_def)
  have a0: "asked ?steps = {}"
    by (auto simp: asked_def)
  have n: "map inv_node tr = nodes a w"
  proof -
    have "map fst (map (\<lambda>i. (inv_node i, inv_callback i, inv_arg i)) tr) =
          map fst (map (\<lambda>(n, f). (n, f, t)) ?cs)"
      using m' by (rule arg_cong)
    then show ?thesis by (simp add: comp_def case_prod_beta nodes_def)
  qed
  have c: "map inv_callback tr = map snd ?cs"
  proof -
    have "map (\<lambda>x. fst (snd x)) (map (\<lambda>i. (inv_node i, inv_callback i, inv_arg i)) tr) =
          map (\<lambda>x. fst (snd x)) (map (\<lambda>(n, f). (n, f, t)) ?cs)"
      using m' by (rule arg_cong)
    then show ?thesis by (simp add: comp_def case_prod_beta)
  qed
  have g: "\<forall>i \<in> set tr. inv_arg i = t"
  proof -
    have "map (\<lambda>x. snd (snd x)) (map (\<lambda>i. (inv_node i, inv_callback i, inv_arg i)) tr) =
          map (\<lambda>x. snd (snd x)) (map (\<lambda>(n, f). (n, f, t)) ?cs)"
      using m' by (rule arg_cong)
    then have "map inv_arg tr = map (\<lambda>x. t) ?cs"
      by (simp add: comp_def case_prod_beta)
    then have "set (map inv_arg tr) \<subseteq> {t}"
      by (simp only: set_map) auto
    then show ?thesis by auto
  qed
  have cb: "callbacks (events w' a) = ?cs"
    using p(1) a0 by simp
  have r': "Event_notify (observer step) a t w = Some (Inr (t, w', tr))"
    using r by (simp only: observer_subscriber [of step a])
  show ?thesis
    using r' n c g p(2) cb p(3-7) by blast
qed


lemma Event_adds_user: "user (Event_adds a ops w) = user w"
  by (induction ops arbitrary: w) (auto simp: Event_add_callbacks)



section \<open>Owners and registries\<close>

text \<open>
  The destructors of a list of owners undo their subscriptions, and \<^verbatim>\<open>addCallback\<close>
  keeps \<open>reg_inv\<close>.
\<close>

text \<open>
  \<^verbatim>\<open>ScopedCallbackID::replace\<close> with another channel: whenever it returns, the owner
  refers to the channel it referred to before, the other channel is as it was, and the
  owner's channel holds copies of the other channel's callbacks and the new callback.
\<close>

lemma ScopedCallbackID_replace_keeps_channel:
  assumes r: "ScopedCallbackID_replace s event c first w = Inr (s', w')"
    and ne: "event \<noteq> sc_event s"
  shows "sc_event s' = sc_event s \<and>
         events w' event = events w event \<and>
         map snd (callbacks (events w' (sc_event s))) =
           (if first then c # map snd (callbacks (events w event))
            else map snd (callbacks (events w event)) @ [c])"
proof -
  obtain w1 cid1 where r1: "Event_remove (sc_event s) (sc_cb s) w = Inr (w1, cid1)"
    using r by (auto simp: ScopedCallbackID_replace_def split: sum.splits)
  have same: "events w1 event = events w event"
    using Event_remove_other [OF r1 ne] .
  let ?w2 = "Event_assign (sc_event s) event w1"
  have w': "w' = fst (Event_add (sc_event s) c first ?w2)"
    and s': "s' = s\<lparr>sc_cb := snd (Event_add (sc_event s) c first ?w2)\<rparr>"
    using r r1 by (auto simp: ScopedCallbackID_replace_def split: prod.splits)
  have a2: "map snd (callbacks (events ?w2 (sc_event s))) = map snd (callbacks (events w1 event))"
    using ne by (simp add: Event_assign_def Let_def)
  have o2: "events ?w2 event = events w1 event"
    using ne by (simp add: Event_assign_def Let_def)
  show ?thesis
    unfolding w' s' using a2 o2 same ne
    by (simp add: Event_add_callbacks)
qed

text \<open>Registries.\<close>

lemma owns_Cons:
  "owns ((p, s) # ents) a n \<longleftrightarrow> (sc_event s = a \<and> sc_cb s = Node a n) \<or> owns ents a n"
  by (auto simp: owns_def)

lemma owns_append:
  "owns (xs @ ys) a n \<longleftrightarrow> owns xs a n \<or> owns ys a n"
  by (auto simp: owns_def)

lemma destroy_all_live:
  assumes "\<forall>(p, s) \<in> set ents.
             \<exists>n. sc_cb s = Node (sc_event s) n \<and> n \<in> set (nodes (sc_event s) w)"
    and "distinct (map (\<lambda>(p, s). sc_cb s) ents)"
  shows "\<exists>w'. destroy_all ents w = Inr w' \<and>
          (\<forall>a. callbacks (events w' a) =
                 filter (\<lambda>x. \<not> owns ents a (fst x)) (callbacks (events w a))) \<and>
          (\<forall>a. enabled (events w' a) = enabled (events w a)) \<and>
          next_node w' = next_node w \<and> next_obj w' = next_obj w \<and> user w' = user w"
  using assms
proof (induction ents arbitrary: w)
  case Nil
  then show ?case by (simp add: owns_def)
next
  case (Cons ps ents)
  obtain p s where ps: "ps = (p, s)" by (cases ps)
  obtain n where n: "sc_cb s = Node (sc_event s) n"
    and live: "n \<in> set (nodes (sc_event s) w)"
    using Cons.prems(1) ps by auto
  let ?a = "sc_event s"
  obtain w1 where r1: "Event_remove ?a (Node ?a n) w = Inr (w1, End ?a)"
    and c1: "callbacks (events w1 ?a) = list_erase n (callbacks (events w ?a))"
    and e1: "enabled (events w1 ?a) = enabled (events w ?a)"
    and o1: "\<forall>b. b \<noteq> ?a \<longrightarrow> events w1 b = events w b"
    and f1: "next_node w1 = next_node w" "next_obj w1 = next_obj w" "user w1 = user w"
    using Event_remove_node [OF live] by blast
  have d: "distinct (map (\<lambda>(p, s). sc_cb s) ents)"
    and nn: "Node ?a n \<notin> (\<lambda>(p, s). sc_cb s) ` set ents"
    using Cons.prems(2) ps n by auto
  have l1: "\<forall>(p', s') \<in> set ents.
              \<exists>m. sc_cb s' = Node (sc_event s') m \<and> m \<in> set (nodes (sc_event s') w1)"
  proof (intro ballI, clarify)
    fix p' s' assume in': "(p', s') \<in> set ents"
    then obtain m where m: "sc_cb s' = Node (sc_event s') m"
      and lm: "m \<in> set (nodes (sc_event s') w)"
      using Cons.prems(1) by auto
    have "sc_event s' = ?a \<longrightarrow> m \<noteq> n" using nn in' m by force
    then have "m \<in> set (nodes (sc_event s') w1)"
      using lm c1 o1 by (cases "sc_event s' = ?a") (auto simp: nodes_def list_erase_filter)
    then show "\<exists>m. sc_cb s' = Node (sc_event s') m \<and> m \<in> set (nodes (sc_event s') w1)"
      using m by blast
  qed
  obtain w' where r': "destroy_all ents w1 = Inr w'"
    and c': "\<forall>a. callbacks (events w' a) =
                 filter (\<lambda>x. \<not> owns ents a (fst x)) (callbacks (events w1 a))"
    and e': "\<forall>a. enabled (events w' a) = enabled (events w1 a)"
    and f': "next_node w' = next_node w1" "next_obj w' = next_obj w1" "user w' = user w1"
    using Cons.IH [OF l1 d] by blast
  have r: "destroy_all (ps # ents) w = Inr w'"
    using r1 r' ps n by (simp add: ScopedCallbackID_dtor_def)
  have c: "callbacks (events w' a) =
           filter (\<lambda>x. \<not> owns (ps # ents) a (fst x)) (callbacks (events w a))" for a
  proof (cases "a = ?a")
    case True
    show ?thesis
      unfolding ps using c' c1 True n
      by (auto simp: owns_Cons list_erase_filter intro: filter_cong)
  next
    case False
    then show ?thesis
      unfolding ps using c' o1 by (auto simp: owns_Cons intro: filter_cong)
  qed
  have e: "enabled (events w' a) = enabled (events w a)" for a
    using e' e1 o1 by (cases "a = ?a") auto
  show ?case
    using r c e f' f1 by simp
qed

lemma addCallback_eq:
  "addCallback e c first h w =
     (next_obj w,
      h\<lparr>h_callbacks :=
          h_callbacks h @ [(next_obj w, \<lparr>sc_event = e, sc_cb = Node e (next_node w)\<rparr>)]\<rparr>,
      fst (Event_add e c first (w\<lparr>next_obj := Suc (next_obj w)\<rparr>)))"
  by (simp add: addCallback_def ScopedCallbackID_ctor_def Let_def Event_add_def)

lemma reg_inv_addCallback:
  assumes inv: "reg_inv k w0 (h_callbacks h) w"
    and add: "addCallback e c first h w = (res, h', w')"
  shows "reg_inv k w0 (h_callbacks h') w' \<and>
         length (h_callbacks h') = Suc (length (h_callbacks h))"
proof -
  let ?n = "next_node w"
  let ?wo = "w\<lparr>next_obj := Suc (next_obj w)\<rparr>"
  let ?new = "(next_obj w, \<lparr>sc_event = e, sc_cb = Node e ?n\<rparr>)"
  have h': "h_callbacks h' = h_callbacks h @ [?new]"
    and w': "w' = fst (Event_add e c first ?wo)"
    using add unfolding addCallback_eq by auto
  have wf: "wf_world w" and k: "k \<le> ?n"
    and live: "\<forall>(p, s) \<in> set (h_callbacks h).
                 \<exists>n. sc_cb s = Node (sc_event s) n \<and> k \<le> n \<and>
                     n \<in> set (nodes (sc_event s) w)"
    and d: "distinct (map (\<lambda>(p, s). sc_cb s) (h_callbacks h))"
    and old: "\<forall>a. filter (\<lambda>x. fst x < k) (callbacks (events w a)) = callbacks (events w0 a)"
    and own: "\<forall>a. \<forall>x \<in> set (callbacks (events w a)). k \<le> fst x \<longrightarrow>
                 owns (h_callbacks h) a (fst x)"
    using inv unfolding reg_inv_def by blast+
  have cs: "callbacks (events w' a) =
      (if a = e then (if first then (?n, c) # callbacks (events w a)
                      else callbacks (events w a) @ [(?n, c)])
       else callbacks (events w a))" for a
    unfolding w' by (simp add: Event_add_def Let_def)
  have nn: "next_node w' = Suc ?n"
    unfolding w' by (simp add: Event_add_def Let_def)
  have wf': "wf_world w'"
    unfolding w' using wf by (simp add: wf_world_add wf_world_next_obj)
  have lt: "\<forall>a. \<forall>m \<in> set (nodes a w). m < ?n"
    using wf by (simp add: wf_world_def wf_event_def)
  have live': "\<forall>(p, s) \<in> set (h_callbacks h').
                 \<exists>n. sc_cb s = Node (sc_event s) n \<and> k \<le> n \<and>
                     n \<in> set (nodes (sc_event s) w')"
  proof (intro ballI, clarify)
    fix p s assume "(p, s) \<in> set (h_callbacks h')"
    then consider "(p, s) \<in> set (h_callbacks h)" | "(p, s) = ?new"
      unfolding h' by auto
    then show "\<exists>n. sc_cb s = Node (sc_event s) n \<and> k \<le> n \<and>
                   n \<in> set (nodes (sc_event s) w')"
    proof cases
      case 1
      then obtain n where "sc_cb s = Node (sc_event s) n" "k \<le> n"
        "n \<in> set (nodes (sc_event s) w)"
        using live by force
      moreover have "set (nodes (sc_event s) w) \<subseteq> set (nodes (sc_event s) w')"
        by (auto simp: nodes_def cs)
      ultimately show ?thesis by blast
    next
      case 2
      then have "sc_cb s = Node (sc_event s) ?n" "?n \<in> set (nodes (sc_event s) w')"
        by (auto simp: nodes_def cs)
      then show ?thesis using k by blast
    qed
  qed
  have d': "distinct (map (\<lambda>(p, s). sc_cb s) (h_callbacks h'))"
  proof -
    have "Node e ?n \<notin> (\<lambda>(p, s). sc_cb s) ` set (h_callbacks h)"
    proof
      assume "Node e ?n \<in> (\<lambda>(p, s). sc_cb s) ` set (h_callbacks h)"
      then obtain p s where "(p, s) \<in> set (h_callbacks h)" "sc_cb s = Node e ?n" by force
      then have "?n \<in> set (nodes (sc_event s) w)" using live by force
      then show False using lt by blast
    qed
    then show ?thesis unfolding h' using d by simp
  qed
  have old': "filter (\<lambda>x. fst x < k) (callbacks (events w' a)) = callbacks (events w0 a)" for a
    using old k by (simp add: cs)
  have own': "\<forall>x \<in> set (callbacks (events w' a)). k \<le> fst x \<longrightarrow>
                 owns (h_callbacks h') a (fst x)" for a
    unfolding h' using own by (auto simp: cs owns_append owns_def)
  show ?thesis
    unfolding reg_inv_def using wf' k nn live' d' old' own' h' by simp
qed

lemma reg_inv_addCallbacks:
  "reg_inv k w0 (h_callbacks h) w \<Longrightarrow> addCallbacks reqs h w = (h', w') \<Longrightarrow>
   reg_inv k w0 (h_callbacks h') w' \<and>
   length (h_callbacks h') = length (h_callbacks h) + length reqs"
proof (induction reqs arbitrary: h w)
  case Nil
  then show ?case by simp
next
  case (Cons r reqs)
  obtain e c first where r: "r = (e, c, first)" by (cases r)
  obtain res h1 w1 where a1: "addCallback e c first h w = (res, h1, w1)"
    by (cases "addCallback e c first h w")
  have rest: "addCallbacks reqs h1 w1 = (h', w')"
    using Cons.prems(2) r a1 by simp
  note s1 = reg_inv_addCallback [OF Cons.prems(1) a1]
  show ?case
    using Cons.IH [OF s1 [THEN conjunct1] rest] s1 by simp
qed

lemma reg_inv_init:
  assumes "wf_world w0"
  shows "reg_inv (next_node w0) w0 [] w0"
proof -
  have "\<forall>a. \<forall>x \<in> set (callbacks (events w0 a)). fst x < next_node w0"
    using assms by (simp add: wf_world_def wf_event_def nodes_def)
  then have "filter (\<lambda>x. fst x < next_node w0) (callbacks (events w0 a)) =
             callbacks (events w0 a)" for a
    by (simp add: filter_id_conv)
  moreover have "\<forall>a. \<forall>x \<in> set (callbacks (events w0 a)). \<not> next_node w0 \<le> fst x"
    using \<open>\<forall>a. \<forall>x \<in> set (callbacks (events w0 a)). fst x < next_node w0\<close>
    by (simp add: not_le)
  ultimately show ?thesis
    using assms unfolding reg_inv_def by simp
qed

section \<open>The example subscribers and states\<close>


lemma removing_rm_call: "removing rm_call 0"
  unfolding removing_def
proof (intro allI)
  fix c :: "node list" and t :: int and w :: "(node list, unit) world"
  let ?ns = "remdups (filter (\<lambda>n. n \<in> set (nodes 0 w)) c)"
  have "distinct ?ns" "set ?ns \<subseteq> set (nodes 0 w)" by auto
  moreover have "rm_call c t w =
      (case removes 0 ?ns w of Inl err \<Rightarrow> Inl (Undefined err)
       | Inr w' \<Rightarrow> Inr (t, w'\<lparr>user := ()\<rparr>))"
    by (simp add: rm_call_def split: sum.splits)
  ultimately show "\<exists>ns t' u. distinct ns \<and> set ns \<subseteq> set (nodes 0 w) \<and>
      rm_call c t w =
        (case removes 0 ns w of Inl err \<Rightarrow> Inl (Undefined err)
         | Inr w' \<Rightarrow> Inr (t', w'\<lparr>user := u\<rparr>))"
    by blast
qed

lemma w_one_simps:
  "callbacks (events w_one 0) = [(0, 1)]"
  "enabled (events w_one 0)"
  "nextCallback (events w_one 0) = End 0"
  "nodes 0 w_one = [0]"
  by (simp_all add: w_one_def nodes_def Event_add_def init_world_def Event_init_def Let_def)

lemma w_rm_callbacks:
  "callbacks (events w_rm 0) = [(0, [0, 2]), (1, [0, 1]), (2, []), (3, [])]"
  "enabled (events w_rm 0)"
  by (simp_all add: w_rm_def Event_add_def init_world_def Event_init_def Let_def)

lemma reg_ex_simps:
  "map (\<lambda>(p, s). (sc_event s, sc_cb s)) (h_callbacks (fst reg_ex)) =
     [(0, Node 0 4), (1, Node 1 5), (0, Node 0 6)]"
  "nodes 0 (snd reg_ex) = [0, 1, 2, 3, 4, 6]"
  "nodes 1 (snd reg_ex) = [5]"
  by (simp_all add: reg_ex_def addCallback_eq ScopedCallbacksHolder_init_def w_rm_def
      Event_add_def init_world_def Event_init_def Let_def nodes_def)

section \<open>The claims\<close>

subsection \<open>C1: replace on a ScopedCallbackID\<close>

text \<open>
  C1 says that \<^verbatim>\<open>replace(newChannel, newCallback, priority)\<close> on an owner removes its
  subscription from its channel, subscribes the new callback to the new channel and makes the
  owner refer to the new channel, leaving the other subscriptions of the old channel alone.
  That does not hold of the code. Here the owner of the subscription 11 on channel 0 is told
  to \<^verbatim>\<open>replace\<close> it by the callback 12 on channel 1. The subscription 11 is removed from
  channel 0; then the Event at 1 is assigned to the Event at 0, which replaces the other
  subscription of channel 0 (the callback 10) by a copy of the callback 20 of channel 1; then
  12 is added to channel 0. Channel 1 is unchanged, and the owner still refers to channel 0:
  its destructor removes 12 from channel 0.
\<close>

theorem ScopedCallbackID_replace_assigns_event:
  "owner_ex = \<lparr>sc_event = 0, sc_cb = Node 0 1\<rparr> \<and>
   callbacks (events w_two 0) = [(0, 10), (1, 11)] \<and>
   callbacks (events w_two 1) = [(2, 20)] \<and>
   ScopedCallbackID_replace owner_ex 1 12 False w_two = Inr (owner_replaced, w_replaced) \<and>
   sc_event owner_replaced = 0 \<and>
   map snd (callbacks (events w_replaced 0)) = [20, 12] \<and>
   callbacks (events w_replaced 1) = [(2, 20)] \<and>
   ScopedCallbackID_dtor owner_replaced w_replaced = Inr w_destroyed \<and>
   map snd (callbacks (events w_destroyed 0)) = [20] \<and>
   callbacks (events w_destroyed 1) = [(2, 20)]"
  by (simp add: w_destroyed_def owner_replaced_def w_replaced_def owner_ex_def w_two_def
      ScopedCallbackID_replace_def ScopedCallbackID_dtor_def
      ScopedCallbackID_ctor_def Event_assign_def Event_remove_def Event_add_def
      init_world_def Event_init_def Let_def list_erase_def upd_event_def)

subsection \<open>C2: replace on a channel\<close>




subsection \<open>C3: removal during dispatch\<close>

text \<open>
  C3. Let every callback, when it runs, ask for the removal of any handles of the channel
  (\<open>hs\<close>: its own, visited ones, ones still to come), change its argument and its own
  state, as \<open>beh\<close> says. \<open>dispatch_spec\<close> says what the dispatch is to be: the callbacks
  of the list are invoked in order, each unless a callback invoked before it asked for its
  removal. \<^verbatim>\<open>notify\<close> on an enabled channel does exactly that: it returns, having invoked
  the callbacks of \<open>steps\<close> with the arguments of \<open>steps\<close>, and leaves the subscribers' state
  that these invocations produce, the list without the callbacks whose removal was asked
  for, and the cursor at the end. So no callback is invoked twice, the order is that of the
  list, a callback is never invoked after its removal was asked for (at each invocation the
  callback invoked and all invoked later were still subscribed), and every callback is
  invoked unless its removal was asked for. A later \<^verbatim>\<open>notify\<close> invokes only callbacks
  that are subscribed then, so none whose removal was asked for.
\<close>

theorem notify_tolerates_removal:
  assumes "distinct (nodes a w)" and "Event_isEnabled a w"
    and "dispatch_spec beh (callbacks (events w a)) t (user w) = (steps, t', u')"
  shows "\<exists>w' tr.
           Event_notify (subscriber a beh) a t w = Some (Inr (t', w', tr)) \<and>
           map (\<lambda>i. (inv_node i, inv_callback i, inv_arg i)) tr =
             map (\<lambda>(n, f, x, hs). (n, f, x)) steps \<and>
           user w' = u' \<and>
           callbacks (events w' a) =
             filter (\<lambda>x. fst x \<notin> asked steps) (callbacks (events w a)) \<and>
           cursor_idle a w' \<and>
           distinct (map inv_node tr) \<and>
           subseq (map inv_node tr) (nodes a w) \<and>
           honoured tr \<and>
           (\<forall>xs n f x hs ys. steps = xs @ (n, f, x, hs) # ys \<longrightarrow>
              set hs \<inter> set (map inv_node (drop (Suc (length xs)) tr)) = {}) \<and>
           set (nodes a w) \<subseteq> set (map inv_node tr) \<union> asked steps \<and>
           set (nodes a w') \<subseteq> set (map inv_node tr) \<and>
           (\<exists>t'' w'' tr2.
              Event_notify (subscriber a beh) a t2 w' = Some (Inr (t'', w'', tr2)) \<and>
              set (map inv_node tr2) \<subseteq> set (nodes a w') \<and>
              set (map inv_node tr2) \<inter> asked steps = {})"
proof -
  note rm = removing_subscriber [of a beh]
  obtain w' tr where r: "Event_notify (subscriber a beh) a t w = Some (Inr (t', w', tr))"
    and m: "map (\<lambda>i. (inv_node i, inv_callback i, inv_arg i)) tr =
              map (\<lambda>(n, f, x, hs). (n, f, x)) steps"
    and cb: "callbacks (events w' a) =
               filter (\<lambda>x. fst x \<notin> asked steps) (callbacks (events w a))"
    and u: "user w' = u'" and idle: "cursor_idle a w'"
    using Event_notify_subscriber [OF assms] by blast
  obtain t0 w0 tr0 where r0: "Event_notify (subscriber a beh) a t w = Some (Inr (t0, w0, tr0))"
    and s0: "subseq (map inv_node tr0) (nodes a w)"
    and h0: "honoured tr0"
    and c0: "Event_isEnabled a w \<longrightarrow> set (nodes a w0) \<subseteq> set (map inv_node tr0)"
    and d0: "distinct (nodes a w0)"
    using Event_notify_removing [OF rm assms(1), of t] by blast
  have eq: "w0 = w'" "tr0 = tr" using r r0 by simp_all
  have s: "subseq (map inv_node tr) (nodes a w)" and h: "honoured tr"
    and c: "set (nodes a w') \<subseteq> set (map inv_node tr)" and d: "distinct (nodes a w')"
    using s0 h0 c0 d0 assms(2) unfolding eq by simp_all
  have dt: "distinct (map inv_node tr)"
    using s assms(1) by (rule subseq_distinct)
  have ns: "map inv_node tr = map fst steps"
  proof -
    have "map fst (map (\<lambda>i. (inv_node i, inv_callback i, inv_arg i)) tr) =
          map fst (map (\<lambda>(n, f, x, hs). (n, f, x)) steps)"
      using m by (rule arg_cong)
    then show ?thesis by (simp add: comp_def case_prod_beta)
  qed
  have skip: "\<forall>xs n f x hs ys. steps = xs @ (n, f, x, hs) # ys \<longrightarrow>
              set hs \<inter> set (map inv_node (drop (Suc (length xs)) tr)) = {}"
  proof (intro allI impI)
    fix xs n f x hs ys assume st: "steps = xs @ (n, f, x, hs) # ys"
    have "set hs \<inter> fst ` set ys = {}"
      using dispatch_spec_skips [OF assms(3) st] .
    moreover have "map inv_node (drop (Suc (length xs)) tr) = map fst ys"
      unfolding drop_map [symmetric] ns st by simp
    ultimately show "set hs \<inter> set (map inv_node (drop (Suc (length xs)) tr)) = {}"
      by simp
  qed
  have cov: "set (nodes a w) \<subseteq> set (map inv_node tr) \<union> asked steps"
    using dispatch_spec_covers [OF assms(3)] unfolding ns by (simp add: nodes_def)
  obtain t'' w'' tr2 where
    r2: "Event_notify (subscriber a beh) a t2 w' = Some (Inr (t'', w'', tr2))"
    and s2: "subseq (map inv_node tr2) (nodes a w')"
    using Event_notify_removing [OF rm d, of t2] by blast
  have i2: "set (map inv_node tr2) \<subseteq> set (nodes a w')"
    using s2 by (rule subseq_set)
  have "set (nodes a w') \<inter> asked steps = {}"
    unfolding nodes_def cb by auto
  then have a2: "set (map inv_node tr2) \<inter> asked steps = {}"
    using i2 by blast
  have ex2: "\<exists>t'' w'' tr2.
              Event_notify (subscriber a beh) a t2 w' = Some (Inr (t'', w'', tr2)) \<and>
              set (map inv_node tr2) \<subseteq> set (nodes a w') \<and>
              set (map inv_node tr2) \<inter> asked steps = {}"
    using r2 i2 a2 by blast
  show ?thesis
    using r m u cb idle dt s h skip cov c ex2
    by - (rule exI [of _ w'], rule exI [of _ tr], intro conjI, assumption+)
qed

theorem notify_tolerates_removal_witness:
  "distinct (nodes 0 w_skip) \<and> Event_isEnabled 0 w_skip \<and>
   callbacks (events w_skip 0) =
     [(0, [1, 4, 0]), (1, []), (2, [0, 2]), (3, []), (4, [])] \<and>
   dispatch_spec rm_beh (callbacks (events w_skip 0)) 7 (user w_skip) =
     ([(0, [1, 4, 0], 7, [1, 4, 0]), (2, [0, 2], 7, [0, 2]), (3, [], 7, [])], 7,
      [([1, 4, 0], 7), ([0, 2], 7), ([], 7)]) \<and>
   (\<exists>w' tr.
      Event_notify (subscriber 0 rm_beh) 0 7 w_skip = Some (Inr (7, w', tr)) \<and>
      map inv_node tr = [0, 2, 3] \<and>
      user w' = [([1, 4, 0], 7), ([0, 2], 7), ([], 7)] \<and>
      callbacks (events w' 0) = [(3, [])] \<and>
      (\<exists>t'' w'' tr2.
         Event_notify (subscriber 0 rm_beh) 0 8 w' = Some (Inr (t'', w'', tr2)) \<and>
         set (map inv_node tr2) \<subseteq> {3}))"
proof -
  let ?steps = "[(0, [1, 4, 0], 7, [1, 4, 0]), (2, [0, 2], 7, [0, 2]), (3, [], 7, [])]
                  :: (node \<times> node list \<times> int \<times> node list) list"
  let ?u = "[([1, 4, 0], 7), ([0, 2], 7), ([], 7)] :: (node list \<times> int) list"
  have cs: "callbacks (events w_skip 0) =
              [(0, [1, 4, 0]), (1, []), (2, [0, 2]), (3, []), (4, [])]"
    and en': "enabled (events w_skip 0)" and us: "user w_skip = []"
    by (simp_all add: w_skip_def Event_add_def init_world_def Event_init_def Let_def)
  have d: "distinct (nodes 0 w_skip)"
    by (simp add: nodes_def cs)
  have en: "Event_isEnabled 0 w_skip"
    by (simp add: Event_isEnabled_def en')
  have sp: "dispatch_spec rm_beh (callbacks (events w_skip 0)) 7 (user w_skip) =
              (?steps, 7, ?u)"
    by (simp add: cs us rm_beh_def)
  obtain w' tr where
    r: "Event_notify (subscriber 0 rm_beh) 0 7 w_skip = Some (Inr (7, w', tr))"
    and m: "map (\<lambda>i. (inv_node i, inv_callback i, inv_arg i)) tr =
              map (\<lambda>(n, f, x, hs). (n, f, x)) ?steps"
    and u: "user w' = ?u"
    and cb: "callbacks (events w' 0) =
               filter (\<lambda>x. fst x \<notin> asked ?steps) (callbacks (events w_skip 0))"
    and q: "\<exists>t'' w'' tr2.
              Event_notify (subscriber 0 rm_beh) 0 8 w' = Some (Inr (t'', w'', tr2)) \<and>
              set (map inv_node tr2) \<subseteq> set (nodes 0 w') \<and>
              set (map inv_node tr2) \<inter> asked ?steps = {}"
    using notify_tolerates_removal [OF d en sp, of 8] by blast
  have tr: "map inv_node tr = [0, 2, 3]"
  proof -
    have "map fst (map (\<lambda>i. (inv_node i, inv_callback i, inv_arg i)) tr) =
          map fst (map (\<lambda>(n, f, x, hs). (n, f, x)) ?steps)"
      using m by (rule arg_cong)
    then show ?thesis by (simp add: comp_def)
  qed
  have cb': "callbacks (events w' 0) = [(3, [])]"
    using cb by (simp add: cs)
  obtain t'' w'' tr2 where
    r2: "Event_notify (subscriber 0 rm_beh) 0 8 w' = Some (Inr (t'', w'', tr2))"
    and s2: "set (map inv_node tr2) \<subseteq> set (nodes 0 w')"
    using q by blast
  have s2': "set (map inv_node tr2) \<subseteq> {3}"
    using s2 by (simp add: nodes_def cb')
  have q': "\<exists>t'' w'' tr2.
         Event_notify (subscriber 0 rm_beh) 0 8 w' = Some (Inr (t'', w'', tr2)) \<and>
         set (map inv_node tr2) \<subseteq> {3}"
    using r2 s2' by - (rule exI [of _ t''], rule exI [of _ w''], rule exI [of _ tr2],
        intro conjI, assumption+)
  have ex: "\<exists>w' tr.
      Event_notify (subscriber 0 rm_beh) 0 7 w_skip = Some (Inr (7, w', tr)) \<and>
      map inv_node tr = [0, 2, 3] \<and>
      user w' = ?u \<and>
      callbacks (events w' 0) = [(3, [])] \<and>
      (\<exists>t'' w'' tr2.
         Event_notify (subscriber 0 rm_beh) 0 8 w' = Some (Inr (t'', w'', tr2)) \<and>
         set (map inv_node tr2) \<subseteq> {3})"
    using r tr u cb' q'
    by - (rule exI [of _ w'], rule exI [of _ tr], intro conjI, assumption+)
  show ?thesis
    using d en cs sp ex by - (intro conjI, assumption+)
qed

subsection \<open>C4: the order of dispatch\<close>

text \<open>
  C4. Take an enabled channel with any callbacks already registered, and any sequence of
  \<^verbatim>\<open>add\<close> calls on it, front and back insertions interleaved. Let the callbacks be
  observers: invoked with \<open>t\<close>, the callback \<open>c\<close> turns the subscribers' state \<open>u\<close> into
  \<open>step c t u\<close> and leaves the channels alone. \<^verbatim>\<open>notify\<close> then invokes, each with the
  argument given: first the front-inserted callbacks, the most recently inserted first,
  then the callbacks that were registered before, in their order, then the back-inserted
  callbacks in the order of their insertion. The state of the subscribers afterwards is what
  these calls, made one after the other in that order, produce; the list is unchanged.
  After \<^verbatim>\<open>add(cbA)\<close>, \<^verbatim>\<open>add(cbB, true)\<close> on a new channel, \<^verbatim>\<open>notify(7)\<close> invokes
  cbB(7), then cbA(7).
\<close>

theorem notify_order:
  assumes "wf_event a w" and "Event_isEnabled a w"
  shows "\<exists>w' tr. Event_notify (observer step) a t (Event_adds a ops w) =
                   Some (Inr (t, w', tr)) \<and>
          map inv_callback tr =
            rev (map fst (filter snd ops)) @ map snd (callbacks (events w a)) @
            map fst (filter (\<lambda>x. \<not> snd x) ops) \<and>
          (\<forall>i \<in> set tr. inv_arg i = t) \<and>
          user w' =
            foldl (\<lambda>u c. step c t u) (user w)
              (rev (map fst (filter snd ops)) @ map snd (callbacks (events w a)) @
               map fst (filter (\<lambda>x. \<not> snd x) ops)) \<and>
          callbacks (events w' a) = callbacks (events (Event_adds a ops w) a) \<and>
          cursor_idle a w'"
proof -
  let ?w = "Event_adds a ops w"
  note a = Event_adds_callbacks [OF assms(1), of ops]
  have d: "distinct (nodes a ?w)"
    using a by (simp add: wf_event_def)
  have en: "Event_isEnabled a ?w"
    using a assms(2) by (simp add: Event_isEnabled_def)
  have o: "map snd (callbacks (events ?w a)) =
            rev (map fst (filter snd ops)) @ map snd (callbacks (events w a)) @
            map fst (filter (\<lambda>x. \<not> snd x) ops)"
    using a by simp
  obtain w' tr where r: "Event_notify (observer step) a t ?w = Some (Inr (t, w', tr))"
    and p: "map inv_callback tr = map snd (callbacks (events ?w a))"
      "\<forall>i \<in> set tr. inv_arg i = t"
      "user w' = foldl (\<lambda>u c. step c t u) (user ?w) (map snd (callbacks (events ?w a)))"
      "callbacks (events w' a) = callbacks (events ?w a)"
      "cursor_idle a w'"
    using Event_notify_observer [OF d en, of step t] by blast
  show ?thesis
    using r p unfolding o Event_adds_user by blast
qed

theorem notify_order_witness:
  "wf_event 0 w_empty \<and> Event_isEnabled 0 w_empty \<and>
   wf_event 0 w_one \<and> Event_isEnabled 0 w_one \<and> callbacks (events w_one 0) = [(0, 1)] \<and>
   (\<exists>w' tr. Event_notify (observer log_step) 0 7
               (Event_adds 0 [(1, False), (2, True)] w_empty) = Some (Inr (7, w', tr)) \<and>
      map inv_callback tr = [2, 1] \<and> (\<forall>i \<in> set tr. inv_arg i = 7) \<and>
      user w' = [(2, 7), (1, 7)]) \<and>
   (\<exists>w' tr. Event_notify (observer log_step) 0 7
               (Event_adds 0 [(2, False), (3, True), (4, False), (5, True)] w_one) =
             Some (Inr (7, w', tr)) \<and>
      map inv_callback tr = [5, 3, 1, 2, 4] \<and>
      user w' = [(5, 7), (3, 7), (1, 7), (2, 7), (4, 7)])"
proof -
  have en: "Event_isEnabled 0 w_empty"
    by (simp add: w_empty_def Event_isEnabled_def init_world_def Event_init_def)
  have cs: "callbacks (events w_empty 0) = []" and us: "user w_empty = []"
    by (simp_all add: w_empty_def init_world_def Event_init_def)
  have wf: "wf_event 0 w_empty"
    unfolding w_empty_def by (rule wf_event_init)
  have en1: "Event_isEnabled 0 w_one"
    by (simp add: Event_isEnabled_def w_one_simps)
  have wf1: "wf_event 0 w_one"
    unfolding w_one_def by (intro wf_event_add wf_event_init)
  have us1: "user w_one = []"
    by (simp add: w_one_def Event_add_def init_world_def Let_def)
  obtain w' tr where
    ra: "Event_notify (observer log_step) 0 7
           (Event_adds 0 [(1, False), (2, True)] w_empty) = Some (Inr (7, w', tr))"
    and pa: "map inv_callback tr =
            rev (map fst (filter snd [(1, False), (2, True)])) @
            map snd (callbacks (events w_empty 0)) @
            map fst (filter (\<lambda>x. \<not> snd x) [(1 :: nat, False), (2, True)])"
      "\<forall>i \<in> set tr. inv_arg i = 7"
      "user w' =
            foldl (\<lambda>u c. log_step c 7 u) (user w_empty)
              (rev (map fst (filter snd [(1, False), (2, True)])) @
               map snd (callbacks (events w_empty 0)) @
               map fst (filter (\<lambda>x. \<not> snd x) [(1 :: nat, False), (2, True)]))"
    using notify_order [OF wf en, of log_step 7 "[(1, False), (2, True)]"] by blast
  have oa: "map inv_callback tr = [2, 1]"
    using pa(1) by (simp add: cs)
  have ua: "user w' = [(2, 7), (1, 7)]"
    using pa(3) by (simp add: cs us log_step_def)
  have A: "\<exists>w' tr. Event_notify (observer log_step) 0 7
               (Event_adds 0 [(1, False), (2, True)] w_empty) = Some (Inr (7, w', tr)) \<and>
      map inv_callback tr = [2, 1] \<and> (\<forall>i \<in> set tr. inv_arg i = 7) \<and>
      user w' = [(2, 7), (1, 7)]"
    using ra oa pa(2) ua
    by - (rule exI [of _ w'], rule exI [of _ tr], intro conjI, assumption+)
  obtain v' tr' where
    rb: "Event_notify (observer log_step) 0 7
           (Event_adds 0 [(2, False), (3, True), (4, False), (5, True)] w_one) =
         Some (Inr (7, v', tr'))"
    and pb: "map inv_callback tr' =
            rev (map fst (filter snd [(2, False), (3, True), (4, False), (5, True)])) @
            map snd (callbacks (events w_one 0)) @
            map fst (filter (\<lambda>x. \<not> snd x)
              [(2 :: nat, False), (3, True), (4, False), (5, True)])"
      "user v' =
            foldl (\<lambda>u c. log_step c 7 u) (user w_one)
              (rev (map fst (filter snd [(2, False), (3, True), (4, False), (5, True)])) @
               map snd (callbacks (events w_one 0)) @
               map fst (filter (\<lambda>x. \<not> snd x)
                 [(2 :: nat, False), (3, True), (4, False), (5, True)]))"
    using notify_order [OF wf1 en1, of log_step 7
        "[(2, False), (3, True), (4, False), (5, True)]"] by blast
  have ob: "map inv_callback tr' = [5, 3, 1, 2, 4]"
    using pb(1) by (simp add: w_one_simps)
  have ub: "user v' = [(5, 7), (3, 7), (1, 7), (2, 7), (4, 7)]"
    using pb(2) by (simp add: w_one_simps us1 log_step_def)
  have B: "\<exists>w' tr. Event_notify (observer log_step) 0 7
               (Event_adds 0 [(2, False), (3, True), (4, False), (5, True)] w_one) =
             Some (Inr (7, w', tr)) \<and>
      map inv_callback tr = [5, 3, 1, 2, 4] \<and>
      user w' = [(5, 7), (3, 7), (1, 7), (2, 7), (4, 7)]"
    using rb ob ub
    by - (rule exI [of _ v'], rule exI [of _ tr'], intro conjI, assumption+)
  show ?thesis
    using wf en wf1 en1 w_one_simps(1) A B by - (intro conjI, assumption+)
qed

subsection \<open>C5: the disable gate\<close>

text \<open>
  C5. On a disabled channel \<^verbatim>\<open>notify\<close> invokes no callback, whatever is registered, and
  returns the state it was given: the callback list, the flag and the cursor are unchanged.
  If the channel was disabled from a state \<open>w\<close> in which it was enabled, then
  \<^verbatim>\<open>setEnabled(true)\<close> leads back to \<open>w\<close> itself, so a \<^verbatim>\<open>notify\<close> after it dispatches
  exactly as one in \<open>w\<close> does.
\<close>

theorem notify_disabled_noop:
  assumes "\<not> Event_isEnabled a wd"
  shows "Event_notify call a t wd = Some (Inr (t, wd, [])) \<and>
         (\<forall>w. Event_isEnabled a w \<longrightarrow> Event_setEnabled a False w = wd \<longrightarrow>
            Event_setEnabled a True wd = w \<and>
            Event_notify call a t' (Event_setEnabled a True wd) = Event_notify call a t' w)"
proof (intro conjI allI impI)
  show "Event_notify call a t wd = Some (Inr (t, wd, []))"
    using assms by (simp add: Event_notify_def Event_isEnabled_def)
next
  fix w assume en: "Event_isEnabled a w" and wd: "Event_setEnabled a False w = wd"
  show bk: "Event_setEnabled a True wd = w"
    using setEnabled_roundtrip [OF en] wd by simp
  show "Event_notify call a t' (Event_setEnabled a True wd) = Event_notify call a t' w"
    by (simp only: bk)
qed

theorem notify_disabled_noop_witness:
  "\<not> Event_isEnabled 0 (Event_setEnabled 0 False w_one) \<and>
   Event_notify log_call 0 7 (Event_setEnabled 0 False w_one) =
     Some (Inr (7, Event_setEnabled 0 False w_one, [])) \<and>
   Event_isEnabled 0 w_one \<and>
   Event_setEnabled 0 True (Event_setEnabled 0 False w_one) = w_one"
proof -
  have h: "\<not> Event_isEnabled 0 (Event_setEnabled 0 False w_one)"
    by (simp add: Event_isEnabled_def Event_setEnabled_def)
  have e: "Event_isEnabled 0 w_one"
    by (simp add: w_one_def Event_isEnabled_def Event_add_def Let_def init_world_def
        Event_init_def)
  note inst = notify_disabled_noop [OF h, of log_call 7 7]
  have A: "Event_notify log_call 0 7 (Event_setEnabled 0 False w_one) =
           Some (Inr (7, Event_setEnabled 0 False w_one, []))"
    using inst by (rule conjunct1)
  have C: "Event_setEnabled 0 True (Event_setEnabled 0 False w_one) = w_one"
    using inst [THEN conjunct2, rule_format, OF e refl] by (rule conjunct1)
  show ?thesis
    using h A e C by (intro conjI)
qed

subsection \<open>C6: ScopedDisable\<close>


subsection \<open>C7: Notifier\<close>




subsection \<open>C8: tearing down a registry\<close>

text \<open>
  C8. Let N subscriptions be added through an empty registry, to any channels, in a state
  \<open>w0\<close>. Then the registry owns N entries, each a live subscription of its channel.
  \<^verbatim>\<open>removeAllCallbacks\<close>, and likewise the destructor of the registry, destroys every
  entry and removes its subscription: every channel has exactly the callbacks again that it
  had in \<open>w0\<close>. Calling \<^verbatim>\<open>removeAllCallbacks\<close> again, or destroying the registry after
  it, changes nothing. A \<^verbatim>\<open>notify\<close> on any channel afterwards invokes none of the N
  callbacks.
\<close>

theorem registry_teardown:
  assumes wf: "wf_world w0"
    and add: "addCallbacks reqs ScopedCallbacksHolder_init w0 = (h, w1)"
    and rm: "removing call a"
  shows "length (h_callbacks h) = length reqs \<and>
         (\<forall>(p, s) \<in> set (h_callbacks h).
            \<exists>n. sc_cb s = Node (sc_event s) n \<and> n \<in> set (nodes (sc_event s) w1)) \<and>
         (\<exists>w2. removeAllCallbacks h w1 = Inr (h\<lparr>h_callbacks := []\<rparr>, w2) \<and>
               ScopedCallbacksHolder_dtor h w1 = Inr w2 \<and>
               removeAllCallbacks (h\<lparr>h_callbacks := []\<rparr>) w2 =
                 Inr (h\<lparr>h_callbacks := []\<rparr>, w2) \<and>
               ScopedCallbacksHolder_dtor (h\<lparr>h_callbacks := []\<rparr>) w2 = Inr w2 \<and>
               (\<forall>b. callbacks (events w2 b) = callbacks (events w0 b)) \<and>
               (\<exists>t' w3 tr. Event_notify call a t w2 = Some (Inr (t', w3, tr)) \<and>
                  (\<forall>i \<in> set tr. \<forall>(p, s) \<in> set (h_callbacks h).
                     \<forall>b. sc_cb s \<noteq> Node b (inv_node i))))"
proof -
  let ?k = "next_node w0"
  have i0: "reg_inv ?k w0 (h_callbacks ScopedCallbacksHolder_init) w0"
    using reg_inv_init [OF wf] by (simp add: ScopedCallbacksHolder_init_def)
  note i1 = reg_inv_addCallbacks [OF i0 add]
  have len: "length (h_callbacks h) = length reqs"
    using i1 by (simp add: ScopedCallbacksHolder_init_def)
  have inv: "reg_inv ?k w0 (h_callbacks h) w1"
    using i1 by (rule conjunct1)
  have live: "\<forall>(p, s) \<in> set (h_callbacks h).
                \<exists>n. sc_cb s = Node (sc_event s) n \<and> ?k \<le> n \<and>
                    n \<in> set (nodes (sc_event s) w1)"
    and d: "distinct (map (\<lambda>(p, s). sc_cb s) (h_callbacks h))"
    and old: "\<forall>b. filter (\<lambda>x. fst x < ?k) (callbacks (events w1 b)) = callbacks (events w0 b)"
    and own: "\<forall>b. \<forall>x \<in> set (callbacks (events w1 b)). ?k \<le> fst x \<longrightarrow>
                 owns (h_callbacks h) b (fst x)"
    using inv unfolding reg_inv_def by blast+
  have live': "\<forall>(p, s) \<in> set (h_callbacks h).
                \<exists>n. sc_cb s = Node (sc_event s) n \<and> n \<in> set (nodes (sc_event s) w1)"
    using live by fast
  obtain w2 where r2: "destroy_all (h_callbacks h) w1 = Inr w2"
    and c2: "\<forall>b. callbacks (events w2 b) =
                 filter (\<lambda>x. \<not> owns (h_callbacks h) b (fst x)) (callbacks (events w1 b))"
    using destroy_all_live [OF live' d] by blast
  have ge: "owns (h_callbacks h) b n \<Longrightarrow> ?k \<le> n" for b n
    using live unfolding owns_def by force
  have same: "callbacks (events w2 b) = callbacks (events w0 b)" for b
  proof -
    have "filter (\<lambda>x. \<not> owns (h_callbacks h) b (fst x)) (callbacks (events w1 b)) =
          filter (\<lambda>x. fst x < ?k) (callbacks (events w1 b))"
    proof (rule filter_cong [OF refl])
      fix x assume x: "x \<in> set (callbacks (events w1 b))"
      show "(\<not> owns (h_callbacks h) b (fst x)) = (fst x < ?k)"
        using own x ge [of b "fst x"] by (auto simp: not_le [symmetric])
    qed
    then show ?thesis using c2 old by simp
  qed
  have dn: "distinct (nodes a w2)"
    using wf same by (simp add: wf_world_def wf_event_def nodes_def)
  obtain t' w3 tr where r3: "Event_notify call a t w2 = Some (Inr (t', w3, tr))"
    and s3: "subseq (map inv_node tr) (nodes a w2)"
    using Event_notify_removing [OF rm dn, of t] by blast
  have lt: "\<forall>n \<in> set (nodes a w2). n < ?k"
    using wf same by (simp add: wf_world_def wf_event_def nodes_def)
  have none: "\<forall>i \<in> set tr. \<forall>(p, s) \<in> set (h_callbacks h).
                \<forall>b. sc_cb s \<noteq> Node b (inv_node i)"
  proof (intro ballI, clarify)
    fix i p s b assume i: "i \<in> set tr" and ps: "(p, s) \<in> set (h_callbacks h)"
      and eq: "sc_cb s = Node b (inv_node i)"
    have "inv_node i \<in> set (nodes a w2)"
      using subseq_set [OF s3] i by auto
    then have "inv_node i < ?k" using lt by blast
    moreover have "?k \<le> inv_node i" using live ps eq by force
    ultimately show False by simp
  qed
  have a1: "removeAllCallbacks h w1 = Inr (h\<lparr>h_callbacks := []\<rparr>, w2)"
    using r2 by (simp add: removeAllCallbacks_def)
  have a2: "ScopedCallbacksHolder_dtor h w1 = Inr w2"
    using r2 by (simp add: ScopedCallbacksHolder_dtor_def)
  have a3: "removeAllCallbacks (h\<lparr>h_callbacks := []\<rparr>) w2 = Inr (h\<lparr>h_callbacks := []\<rparr>, w2)"
    by (simp add: removeAllCallbacks_def)
  have a4: "ScopedCallbacksHolder_dtor (h\<lparr>h_callbacks := []\<rparr>) w2 = Inr w2"
    by (simp add: ScopedCallbacksHolder_dtor_def)
  have "\<exists>t' w3 tr. Event_notify call a t w2 = Some (Inr (t', w3, tr)) \<and>
          (\<forall>i \<in> set tr. \<forall>(p, s) \<in> set (h_callbacks h).
             \<forall>b. sc_cb s \<noteq> Node b (inv_node i))"
    using r3 none by blast
  then have "\<exists>w2. removeAllCallbacks h w1 = Inr (h\<lparr>h_callbacks := []\<rparr>, w2) \<and>
               ScopedCallbacksHolder_dtor h w1 = Inr w2 \<and>
               removeAllCallbacks (h\<lparr>h_callbacks := []\<rparr>) w2 =
                 Inr (h\<lparr>h_callbacks := []\<rparr>, w2) \<and>
               ScopedCallbacksHolder_dtor (h\<lparr>h_callbacks := []\<rparr>) w2 = Inr w2 \<and>
               (\<forall>b. callbacks (events w2 b) = callbacks (events w0 b)) \<and>
               (\<exists>t' w3 tr. Event_notify call a t w2 = Some (Inr (t', w3, tr)) \<and>
                  (\<forall>i \<in> set tr. \<forall>(p, s) \<in> set (h_callbacks h).
                     \<forall>b. sc_cb s \<noteq> Node b (inv_node i)))"
    using a1 a2 a3 a4 same by blast
  then show ?thesis using len live' by blast
qed

theorem registry_teardown_witness:
  "wf_world w_rm \<and> removing rm_call 0 \<and>
   map (\<lambda>(p, s). (sc_event s, sc_cb s)) (h_callbacks (fst reg_ex)) =
     [(0, Node 0 4), (1, Node 1 5), (0, Node 0 6)] \<and>
   nodes 0 (snd reg_ex) = [0, 1, 2, 3, 4, 6] \<and> nodes 1 (snd reg_ex) = [5] \<and>
   (\<exists>w2. removeAllCallbacks (fst reg_ex) (snd reg_ex) =
            Inr ((fst reg_ex)\<lparr>h_callbacks := []\<rparr>, w2) \<and>
         nodes 0 w2 = [0, 1, 2, 3] \<and> nodes 1 w2 = [] \<and>
         (\<exists>t' w3 tr. Event_notify rm_call 0 7 w2 = Some (Inr (t', w3, tr)) \<and>
            (\<forall>i \<in> set tr. inv_node i \<notin> {4, 5, 6})))"
proof -
  have wf: "wf_world w_rm"
    unfolding w_rm_def by (intro wf_world_adds wf_world_init)
  have add: "addCallbacks [(0, [], False), (1, [], True), (0, [], False)]
               ScopedCallbacksHolder_init w_rm = (fst reg_ex, snd reg_ex)"
    by (simp add: reg_ex_def)
  note inst = registry_teardown [OF wf add removing_rm_call, of 7]
  obtain w2 where r: "removeAllCallbacks (fst reg_ex) (snd reg_ex) =
            Inr ((fst reg_ex)\<lparr>h_callbacks := []\<rparr>, w2)"
    and same: "\<forall>b. callbacks (events w2 b) = callbacks (events w_rm b)"
    and n: "\<exists>t' w3 tr. Event_notify rm_call 0 7 w2 = Some (Inr (t', w3, tr)) \<and>
                  (\<forall>i \<in> set tr. \<forall>(p, s) \<in> set (h_callbacks (fst reg_ex)).
                     \<forall>b. sc_cb s \<noteq> Node b (inv_node i))"
    using inst by blast
  have n0: "nodes 0 w2 = [0, 1, 2, 3]"
    using same by (simp add: nodes_def w_rm_callbacks)
  have n1: "nodes 1 w2 = []"
    using same by (simp add: nodes_def w_rm_def Event_add_def init_world_def Event_init_def
        Let_def)
  obtain t' w3 tr where r3: "Event_notify rm_call 0 7 w2 = Some (Inr (t', w3, tr))"
    and no: "\<forall>i \<in> set tr. \<forall>(p, s) \<in> set (h_callbacks (fst reg_ex)).
                     \<forall>b. sc_cb s \<noteq> Node b (inv_node i)"
    using n by blast
  have hs: "{Node 0 4, Node 1 5, Node 0 6} \<subseteq>
            (\<lambda>(p, s). sc_cb s) ` set (h_callbacks (fst reg_ex))"
  proof -
    have "(\<lambda>(p, s). sc_cb s) ` set (h_callbacks (fst reg_ex)) =
          snd ` set (map (\<lambda>(p, s). (sc_event s, sc_cb s)) (h_callbacks (fst reg_ex)))"
      by force
    then show ?thesis by (simp add: reg_ex_simps(1))
  qed
  have no': "\<forall>i \<in> set tr. inv_node i \<notin> {4, 5, 6}"
  proof
    fix i assume i: "i \<in> set tr"
    show "inv_node i \<notin> {4, 5, 6}"
    proof
      assume "inv_node i \<in> {4, 5, 6}"
      then consider "inv_node i = 4" | "inv_node i = 5" | "inv_node i = 6" by auto
      then have "\<exists>b. Node b (inv_node i) \<in>
                     (\<lambda>(p, s). sc_cb s) ` set (h_callbacks (fst reg_ex))"
      proof cases
        case 1
        have "Node 0 4 \<in> (\<lambda>(p, s). sc_cb s) ` set (h_callbacks (fst reg_ex))"
          using hs by simp
        then show ?thesis unfolding 1 by (rule exI)
      next
        case 2
        have "Node 1 5 \<in> (\<lambda>(p, s). sc_cb s) ` set (h_callbacks (fst reg_ex))"
          using hs by simp
        then show ?thesis unfolding 2 by (rule exI)
      next
        case 3
        have "Node 0 6 \<in> (\<lambda>(p, s). sc_cb s) ` set (h_callbacks (fst reg_ex))"
          using hs by simp
        then show ?thesis unfolding 3 by (rule exI)
      qed
      then obtain b p s where ps: "(p, s) \<in> set (h_callbacks (fst reg_ex))"
        and e: "Node b (inv_node i) = sc_cb s"
        by auto
      have "case (p, s) of (p, s) \<Rightarrow> \<forall>b. sc_cb s \<noteq> Node b (inv_node i)"
        using no i ps by blast
      then have "sc_cb s \<noteq> Node b (inv_node i)" by simp
      then show False using e by simp
    qed
  qed
  have ex3: "\<exists>t' w3 tr. Event_notify rm_call 0 7 w2 = Some (Inr (t', w3, tr)) \<and>
            (\<forall>i \<in> set tr. inv_node i \<notin> {4, 5, 6})"
    using r3 no' by - (rule exI [of _ t'], rule exI [of _ w3], rule exI [of _ tr],
        intro conjI, assumption+)
  have ex2: "\<exists>w2. removeAllCallbacks (fst reg_ex) (snd reg_ex) =
            Inr ((fst reg_ex)\<lparr>h_callbacks := []\<rparr>, w2) \<and>
         nodes 0 w2 = [0, 1, 2, 3] \<and> nodes 1 w2 = [] \<and>
         (\<exists>t' w3 tr. Event_notify rm_call 0 7 w2 = Some (Inr (t', w3, tr)) \<and>
            (\<forall>i \<in> set tr. inv_node i \<notin> {4, 5, 6}))"
    using r n0 n1 ex3 by - (rule exI [of _ w2], intro conjI, assumption+)
  show ?thesis
    using wf removing_rm_call reg_ex_simps ex2 by - (intro conjI, assumption+)
qed

subsection \<open>C9: Value\<close>



subsection \<open>C10: the cursor between calls\<close>




end
